theory Spec2Isabelle
  imports Main "HOL-Library.Word"
begin

section \<open>The in-memory message queue (message\_queue.cpp)\<close>

text \<open>
  A shallow embedding of \<^verbatim>\<open>message_queue.cpp\<close>: \<^verbatim>\<open>Message\<close>, \<^verbatim>\<open>Consumer\<close>,
  \<^verbatim>\<open>Topic\<close> and the broker \<^verbatim>\<open>MessageQueue\<close>.

  \<^item> A \<^verbatim>\<open>std::shared_ptr<Consumer>\<close> is an address (\<open>cref\<close>) into a store of consumer
    objects; a topic's subscriber list and the broker's consumer registry hold addresses,
    so that a change of a consumer (its subscription set, its activation flag) is seen
    through every reference, as in the source. References are non-null: the tests
    \<^verbatim>\<open>if (subscriber)\<close> and \<^verbatim>\<open>if (consumer)\<close> of the source are true throughout.
  \<^item> \<^verbatim>\<open>size_t\<close> is a 64-bit word; \<^verbatim>\<open>fetch_add(1)\<close> wraps.
  \<^item> \<^verbatim>\<open>std::cerr\<close> is a list of lines, and every call of a handler is recorded, so that
    what was logged and who was handed which message can be stated.
  \<^item> The identifier (\<^verbatim>\<open>generateId\<close>, random) and the time stamp (the system clock) of a
    new message are inputs of the model.
  \<^item> One client thread calls the broker; handlers do not call back into the broker
    or into consumers.
\<close>

subsection \<open>Messages\<close>

record Message =
  msg_id :: string
  msg_topic :: string
  msg_payload :: string
  msg_timestamp :: nat
  msg_headers :: "string \<rightharpoonup> string"

definition Message_new ::
  "string \<Rightarrow> nat \<Rightarrow> string \<Rightarrow> string \<Rightarrow> (string \<rightharpoonup> string) \<Rightarrow> Message" where
  "Message_new i ts tp p h =
     \<lparr>msg_id = i, msg_topic = tp, msg_payload = p, msg_timestamp = ts, msg_headers = h\<rparr>"

subsection \<open>Handlers and consumers\<close>

text \<open>
  What \<^verbatim>\<open>handleMessage\<close> can do with a message: return, throw an object derived from
  \<^verbatim>\<open>std::exception\<close> (with its \<^verbatim>\<open>what()\<close>), throw anything else, or never return.
\<close>

datatype exn = StdException string | OtherThrow

datatype outcome = Return | Throw exn | Hang

type_synonym cref = nat

record Consumer =
  c_id :: string
  handler :: "Message \<Rightarrow> outcome"
  subscribedTopics :: "string set"
  active :: bool

record env =
  heap :: "cref \<Rightarrow> Consumer"
  cerr :: "string list"
  calls :: "(cref \<times> Message) list"

text \<open>The constructor: \<^verbatim>\<open>active_(true)\<close>, no subscription.\<close>

definition Consumer_new :: "string \<Rightarrow> (Message \<Rightarrow> outcome) \<Rightarrow> Consumer" where
  "Consumer_new i h = \<lparr>c_id = i, handler = h, subscribedTopics = {}, active = True\<rparr>"

text \<open>
  The environment before the broker is used: at every address a consumer as its
  constructor leaves it, nothing logged, no handler called.
\<close>

definition fresh_env :: "(cref \<Rightarrow> string \<times> (Message \<Rightarrow> outcome)) \<Rightarrow> env" where
  "fresh_env mk =
     \<lparr>heap = (\<lambda>c. Consumer_new (fst (mk c)) (snd (mk c))), cerr = [], calls = []\<rparr>"

definition Consumer_stop :: "cref \<Rightarrow> env \<Rightarrow> env" where
  "Consumer_stop c e = e\<lparr>heap := (heap e)(c := (heap e c)\<lparr>active := False\<rparr>)\<rparr>"

definition Consumer_isActive :: "cref \<Rightarrow> env \<Rightarrow> bool" where
  "Consumer_isActive c e = active (heap e c)"

definition Consumer_addSubscription :: "cref \<Rightarrow> string \<Rightarrow> env \<Rightarrow> env" where
  "Consumer_addSubscription c tp e =
     e\<lparr>heap := (heap e)(c := (heap e c)\<lparr>subscribedTopics := insert tp (subscribedTopics (heap e c))\<rparr>)\<rparr>"

definition Consumer_removeSubscription :: "cref \<Rightarrow> string \<Rightarrow> env \<Rightarrow> env" where
  "Consumer_removeSubscription c tp e =
     e\<lparr>heap := (heap e)(c := (heap e c)\<lparr>subscribedTopics := subscribedTopics (heap e c) - {tp}\<rparr>)\<rparr>"

text \<open>
  \<^verbatim>\<open>Consumer::onMessage\<close>. \<open>Inl\<close>: the handler never returns, and neither does
  \<^verbatim>\<open>onMessage\<close>; the environment is the one at that moment. \<open>Inr (x, e)\<close>: the call
  is over, \<open>x\<close> is the exception that leaves it, if any. The \<^verbatim>\<open>catch\<close> clause is for
  \<^verbatim>\<open>const std::exception&\<close> only.
\<close>

definition Consumer_onMessage :: "cref \<Rightarrow> Message \<Rightarrow> env \<Rightarrow> env + exn option \<times> env" where
  "Consumer_onMessage c m e =
     (if active (heap e c) then
        (let e1 = e\<lparr>calls := calls e @ [(c, m)]\<rparr> in
         case handler (heap e c) m of
           Return \<Rightarrow> Inr (None, e1)
         | Throw (StdException w) \<Rightarrow>
             Inr (None, e1\<lparr>cerr := cerr e1 @ [''Error processing message '' @ msg_id m @ '': '' @ w]\<rparr>)
         | Throw OtherThrow \<Rightarrow> Inr (Some OtherThrow, e1)
         | Hang \<Rightarrow> Inl e1)
      else Inr (None, e))"

subsection \<open>Topics\<close>

type_synonym size_t = "64 word"

record TopicStats =
  st_name :: string
  st_messageCount :: size_t
  queueSize :: size_t
  subscriberCount :: size_t
  st_maxSize :: size_t

record Topic =
  name :: string
  maxSize :: size_t
  messages :: "Message list"
  subscribers :: "cref list"
  messageCount :: size_t

definition Topic_new :: "string \<Rightarrow> size_t \<Rightarrow> Topic" where
  "Topic_new n cap = \<lparr>name = n, maxSize = cap, messages = [], subscribers = [], messageCount = 0\<rparr>"

definition Topic_subscribe :: "cref \<Rightarrow> Topic \<times> env \<Rightarrow> Topic \<times> env" where
  "Topic_subscribe c = (\<lambda>(t, e).
     if c \<notin> set (subscribers t)
     then (t\<lparr>subscribers := subscribers t @ [c]\<rparr>, Consumer_addSubscription c (name t) e)
     else (t, e))"

text \<open>\<^verbatim>\<open>std::find\<close> gives the first occurrence, and \<^verbatim>\<open>erase(it)\<close> removes that one.\<close>

definition Topic_unsubscribe :: "cref \<Rightarrow> Topic \<times> env \<Rightarrow> Topic \<times> env" where
  "Topic_unsubscribe c = (\<lambda>(t, e).
     if c \<in> set (subscribers t)
     then (t\<lparr>subscribers := remove1 c (subscribers t)\<rparr>, Consumer_removeSubscription c (name t) e)
     else (t, e))"

definition Topic_getStats :: "Topic \<Rightarrow> TopicStats" where
  "Topic_getStats t =
     \<lparr>st_name = name t, st_messageCount = messageCount t,
      queueSize = of_nat (length (messages t)),
      subscriberCount = of_nat (length (subscribers t)),
      st_maxSize = maxSize t\<rparr>"

text \<open>
  One round of the loop of \<^verbatim>\<open>deliverMessage\<close> for an active subscriber:
  \<^verbatim>\<open>std::async(std::launch::async, [subscriber, message]() { ... });\<close>
  The future that \<^verbatim>\<open>std::async\<close> returns is a temporary that nothing keeps. The
  destructor of the last future of a task launched with \<^verbatim>\<open>std::launch::async\<close> waits for
  the task to finish, and the temporary is destroyed at the end of the statement: the
  loop goes on to the next subscriber only when the task is over, and not at all when the
  handler never returns. An exception that leaves the task is stored in the future and
  goes away with it.
\<close>

definition dispatch :: "cref \<Rightarrow> Message \<Rightarrow> env \<Rightarrow> env + env" where
  "dispatch c m e =
     (case Consumer_onMessage c m e of
        Inl e' \<Rightarrow> Inl e'
      | Inr (x, e') \<Rightarrow>
          (case x of
             None \<Rightarrow> Inr e'
           | Some (StdException w) \<Rightarrow>
               Inr (e'\<lparr>cerr := cerr e' @ [''Error delivering message to '' @ c_id (heap e' c) @ '': '' @ w]\<rparr>)
           | Some OtherThrow \<Rightarrow> Inr e'))"

text \<open>
  The loop of \<^verbatim>\<open>deliverMessage\<close> over the copy \<open>cs\<close> of the subscriber list; the
  topic \<open>t\<close> holds the live list, which \<^verbatim>\<open>unsubscribe\<close> changes. \<open>Inl\<close>: the loop is
  stuck in a dispatch that never ends.
\<close>

fun deliver_loop :: "Message \<Rightarrow> cref list \<Rightarrow> Topic \<times> env \<Rightarrow> Topic \<times> env + Topic \<times> env" where
  "deliver_loop m [] te = Inr te"
| "deliver_loop m (c # cs) te =
     (if Consumer_isActive c (snd te) then
        (case dispatch c m (snd te) of
           Inl e' \<Rightarrow> Inl (fst te, e')
         | Inr e' \<Rightarrow> deliver_loop m cs (fst te, e'))
      else deliver_loop m cs (Topic_unsubscribe c te))"

definition Topic_deliverMessage :: "Message \<Rightarrow> Topic \<times> env \<Rightarrow> Topic \<times> env + Topic \<times> env" where
  "Topic_deliverMessage m te = deliver_loop m (subscribers (fst te)) te"

text \<open>
  \<^verbatim>\<open>Topic::addMessage\<close>. The length of the queue is compared with \<^verbatim>\<open>maxSize_\<close> as a
  number; a queue of \<open>2 ^ 64\<close> messages or more does not fit in memory.
\<close>

definition Topic_addMessage :: "Message \<Rightarrow> Topic \<times> env \<Rightarrow> Topic \<times> env + Topic \<times> env" where
  "Topic_addMessage m = (\<lambda>(t, e).
     if unat (maxSize t) \<le> length (messages t)
     then Inr (t, e\<lparr>cerr := cerr e @ [''Topic '' @ name t @ '' is full, dropping message: '' @ msg_id m]\<rparr>)
     else Topic_deliverMessage m
            (t\<lparr>messages := messages t @ [m], messageCount := messageCount t + 1\<rparr>, e))"

subsection \<open>The broker\<close>

record MessageQueue =
  topics :: "string \<rightharpoonup> Topic"
  consumers :: "cref list"

type_synonym world = "MessageQueue \<times> env"

definition MessageQueue_new :: MessageQueue where
  "MessageQueue_new = \<lparr>topics = Map.empty, consumers = []\<rparr>"

text \<open>
  The registry holds \<^verbatim>\<open>shared_ptr<Topic>\<close>; the model keeps the topic object in the map
  and writes it back after a call through the pointer.
\<close>

definition createTopic :: "string \<Rightarrow> size_t \<Rightarrow> MessageQueue \<Rightarrow> Topic \<times> MessageQueue" where
  "createTopic n cap q =
     (case topics q n of
        None \<Rightarrow> (Topic_new n cap, q\<lparr>topics := (topics q)(n \<mapsto> Topic_new n cap)\<rparr>)
      | Some t \<Rightarrow> (t, q))"

text \<open>The default argument \<^verbatim>\<open>maxSize = 1000\<close> of \<^verbatim>\<open>createTopic\<close>.\<close>

definition default_maxSize :: size_t where
  "default_maxSize = 1000"

fun unsubscribe_all :: "cref list \<Rightarrow> Topic \<times> env \<Rightarrow> Topic \<times> env" where
  "unsubscribe_all [] te = te"
| "unsubscribe_all (c # cs) te = unsubscribe_all cs (Topic_unsubscribe c te)"

definition deleteTopic :: "string \<Rightarrow> world \<Rightarrow> bool \<times> world" where
  "deleteTopic n = (\<lambda>(q, e).
     case topics q n of
       Some t \<Rightarrow>
         (True, q\<lparr>topics := (topics q)(n := None)\<rparr>, snd (unsubscribe_all (consumers q) (t, e)))
     | None \<Rightarrow> (False, q, e))"

text \<open>
  \<^verbatim>\<open>MessageQueue::publish\<close>, with the identifier \<open>i\<close> and the time stamp \<open>ts\<close> that the
  constructor of the message draws. \<open>Inl\<close>: the call never returns.
\<close>

definition publish ::
  "string \<Rightarrow> string \<Rightarrow> (string \<rightharpoonup> string) \<Rightarrow> string \<Rightarrow> nat \<Rightarrow> world \<Rightarrow> world + string \<times> world" where
  "publish n p h i ts = (\<lambda>(q, e).
     let (t, q1) = createTopic n default_maxSize q;
         m = Message_new i ts n p h;
         messageId = msg_id m
     in case Topic_addMessage m (t, e) of
          Inl (t', e') \<Rightarrow> Inl (q1\<lparr>topics := (topics q1)(n \<mapsto> t')\<rparr>, e')
        | Inr (t', e') \<Rightarrow> Inr (messageId, q1\<lparr>topics := (topics q1)(n \<mapsto> t')\<rparr>, e'))"

definition subscribe :: "cref \<Rightarrow> string \<Rightarrow> world \<Rightarrow> world" where
  "subscribe c n = (\<lambda>(q, e).
     let (t, q1) = createTopic n default_maxSize q;
         (t', e') = Topic_subscribe c (t, e);
         q2 = q1\<lparr>topics := (topics q1)(n \<mapsto> t')\<rparr>
     in (if c \<notin> set (consumers q2) then q2\<lparr>consumers := consumers q2 @ [c]\<rparr> else q2, e'))"

definition unsubscribe :: "cref \<Rightarrow> string \<Rightarrow> world \<Rightarrow> world" where
  "unsubscribe c n = (\<lambda>(q, e).
     case topics q n of
       Some t \<Rightarrow> (let (t', e') = Topic_unsubscribe c (t, e) in (q\<lparr>topics := (topics q)(n \<mapsto> t')\<rparr>, e'))
     | None \<Rightarrow> (q, e))"

definition getTopicStats :: "string \<Rightarrow> MessageQueue \<Rightarrow> TopicStats option" where
  "getTopicStats n q =
     (case topics q n of Some t \<Rightarrow> Some (Topic_getStats t) | None \<Rightarrow> None)"

subsection \<open>Sequences of calls\<close>

text \<open>The calls a client makes on one topic object and on the consumers.\<close>

datatype topic_op =
  AddMessage Message
| TSubscribe cref
| TUnsubscribe cref
| TStop cref

fun topic_exec :: "topic_op \<Rightarrow> Topic \<times> env \<Rightarrow> Topic \<times> env + Topic \<times> env" where
  "topic_exec (AddMessage m) te = Topic_addMessage m te"
| "topic_exec (TSubscribe c) te = Inr (Topic_subscribe c te)"
| "topic_exec (TUnsubscribe c) te = Inr (Topic_unsubscribe c te)"
| "topic_exec (TStop c) te = Inr (fst te, Consumer_stop c (snd te))"

text \<open>A call that never returns ends the sequence: the client makes no further call.\<close>

fun topic_run :: "topic_op list \<Rightarrow> Topic \<times> env \<Rightarrow> Topic \<times> env + Topic \<times> env" where
  "topic_run [] te = Inr te"
| "topic_run (x # xs) te =
     (case topic_exec x te of Inl te' \<Rightarrow> Inl te' | Inr te' \<Rightarrow> topic_run xs te')"

text \<open>The state a sequence ends in, returned from or stuck.\<close>

definition final :: "'a + 'a \<Rightarrow> 'a" where
  "final r = (case r of Inl a \<Rightarrow> a | Inr a \<Rightarrow> a)"

text \<open>
  The calls a client makes on the broker and on the consumers. The client reaches topics
  through the broker only: it makes no call on the \<^verbatim>\<open>shared_ptr<Topic>\<close> that
  \<^verbatim>\<open>createTopic\<close> returns, and none on \<^verbatim>\<open>addSubscription\<close> or
  \<^verbatim>\<open>removeSubscription\<close> of a consumer.
\<close>

datatype op =
  CreateTopic string size_t
| DeleteTopic string
| Publish string string "string \<rightharpoonup> string" string nat
| Subscribe cref string
| Unsubscribe cref string
| Stop cref

fun exec :: "op \<Rightarrow> world \<Rightarrow> world + world" where
  "exec (CreateTopic n cap) w = Inr (snd (createTopic n cap (fst w)), snd w)"
| "exec (DeleteTopic n) w = Inr (snd (deleteTopic n w))"
| "exec (Publish n p h i ts) w =
     (case publish n p h i ts w of Inl w' \<Rightarrow> Inl w' | Inr (r, w') \<Rightarrow> Inr w')"
| "exec (Subscribe c n) w = Inr (subscribe c n w)"
| "exec (Unsubscribe c n) w = Inr (unsubscribe c n w)"
| "exec (Stop c) w = Inr (fst w, Consumer_stop c (snd w))"

fun run :: "op list \<Rightarrow> world \<Rightarrow> world + world" where
  "run [] w = Inr w"
| "run (x # xs) w = (case exec x w of Inl w' \<Rightarrow> Inl w' | Inr w' \<Rightarrow> run xs w')"

subsection \<open>Auxiliary notions\<close>

text \<open>
  The buffer side of a topic: what \<^verbatim>\<open>subscribe\<close>, \<^verbatim>\<open>unsubscribe\<close> and the delivery
  leave alone.
\<close>

definition buffer_of :: "Topic \<Rightarrow> string \<times> size_t \<times> Message list \<times> size_t" where
  "buffer_of t = (name t, maxSize t, messages t, messageCount t)"

text \<open>The counter agrees with the buffer, and the buffer is within the capacity.\<close>

definition counted :: "Topic \<Rightarrow> bool" where
  "counted t \<longleftrightarrow> unat (messageCount t) = length (messages t) \<and> length (messages t) \<le> unat (maxSize t)"

text \<open>What no call of the broker changes in a consumer, except \<^verbatim>\<open>stop\<close> the flag.\<close>

definition fixed_of :: "env \<Rightarrow> cref \<Rightarrow> string \<times> (Message \<Rightarrow> outcome) \<times> bool" where
  "fixed_of e c = (c_id (heap e c), handler (heap e c), active (heap e c))"

text \<open>The calls of the handler of one consumer.\<close>

definition calls_to :: "cref \<Rightarrow> env \<Rightarrow> (cref \<times> Message) list" where
  "calls_to c e = filter (\<lambda>x. fst x = c) (calls e)"

text \<open>A stopped consumer stays stopped, and its handler is not called, from \<open>e\<close> to \<open>e'\<close>.\<close>

definition stays_stopped :: "cref \<Rightarrow> env \<Rightarrow> env \<Rightarrow> bool" where
  "stays_stopped c e e' \<longleftrightarrow> \<not> active (heap e' c) \<and> calls_to c e' = calls_to c e"

text \<open>
  A topic and the consumers agree: no subscriber twice, and the topic's name is in the
  subscription set of exactly its subscribers.
\<close>

definition linked :: "Topic \<Rightarrow> env \<Rightarrow> bool" where
  "linked t e \<longleftrightarrow> distinct (subscribers t)
     \<and> (\<forall>c. (name t \<in> subscribedTopics (heap e c)) = (c \<in> set (subscribers t)))"

text \<open>From \<open>e\<close> to \<open>e'\<close> no subscription set changes, except for the name \<open>n\<close>.\<close>

definition others_kept :: "string \<Rightarrow> env \<Rightarrow> env \<Rightarrow> bool" where
  "others_kept n e e' \<longleftrightarrow>
     (\<forall>c n'. n' \<noteq> n \<longrightarrow> (n' \<in> subscribedTopics (heap e' c)) = (n' \<in> subscribedTopics (heap e c)))"

text \<open>What a call on one topic may change, from \<open>te\<close> to \<open>te'\<close>.\<close>

definition topic_frame :: "Topic \<times> env \<Rightarrow> Topic \<times> env \<Rightarrow> bool" where
  "topic_frame te te' \<longleftrightarrow> name (fst te') = name (fst te)
     \<and> set (subscribers (fst te')) \<subseteq> set (subscribers (fst te))
     \<and> others_kept (name (fst te)) (snd te) (snd te')
     \<and> (linked (fst te) (snd te) \<longrightarrow> linked (fst te') (snd te'))"

text \<open>
  The invariant of the broker: a topic is registered under its own name, agrees with
  the consumers, and has its subscribers in the consumer registry; a name that is not
  registered is in no subscription set.
\<close>

definition broker_inv :: "world \<Rightarrow> bool" where
  "broker_inv w \<longleftrightarrow>
     (\<forall>n t. topics (fst w) n = Some t \<longrightarrow>
        name t = n \<and> linked t (snd w) \<and> set (subscribers t) \<subseteq> set (consumers (fst w)))
     \<and> (\<forall>n c. topics (fst w) n = None \<longrightarrow> n \<notin> subscribedTopics (heap (snd w) c))"

text \<open>Every registered topic has its counter in agreement with its buffer.\<close>

definition all_counted :: "world \<Rightarrow> bool" where
  "all_counted w \<longleftrightarrow> (\<forall>n t. topics (fst w) n = Some t \<longrightarrow> counted t)"

subsection \<open>Scenarios\<close>

text \<open>Consumer 1 has a handler that never returns; every other handler returns.\<close>

definition slow_and_ok :: "cref \<Rightarrow> string \<times> (Message \<Rightarrow> outcome)" where
  "slow_and_ok c = (if c = 1 then (''slow'', \<lambda>m. Hang) else (''ok'', \<lambda>m. Return))"

text \<open>Every handler returns.\<close>

definition quiet :: "cref \<Rightarrow> string \<times> (Message \<Rightarrow> outcome)" where
  "quiet c = (''c'', \<lambda>m. Return)"

text \<open>Messages for a topic \<^verbatim>\<open>orders\<close> of capacity 2, and that topic with one and two of them.\<close>

definition order_msg :: "string \<Rightarrow> Message" where
  "order_msg i = Message_new i 0 ''orders'' ''Order created'' Map.empty"

definition orders1 :: Topic where
  "orders1 = \<lparr>name = ''orders'', maxSize = 2, messages = [order_msg ''m1''],
              subscribers = [], messageCount = 1\<rparr>"

definition orders2 :: Topic where
  "orders2 = \<lparr>name = ''orders'', maxSize = 2, messages = [order_msg ''m1'', order_msg ''m2''],
              subscribers = [], messageCount = 2\<rparr>"

text \<open>
  Consumer 1 has a handler that always throws a \<^verbatim>\<open>std::exception\<close>; every other
  handler returns. Consumers 1 and 2 subscribe to a topic \<^verbatim>\<open>alerts\<close>.
\<close>

definition bad_and_ok :: "cref \<Rightarrow> string \<times> (Message \<Rightarrow> outcome)" where
  "bad_and_ok c =
     (if c = 1 then (''bad'', \<lambda>m. Throw (StdException ''boom'')) else (''ok'', \<lambda>m. Return))"

definition alerts :: "Topic \<times> env" where
  "alerts = Topic_subscribe 2 (Topic_subscribe 1 (Topic_new ''alerts'' 10, fresh_env bad_and_ok))"

definition fire :: Message where
  "fire = Message_new ''m1'' 0 ''alerts'' ''fire'' Map.empty"

text \<open>A broker with a topic of capacity 0, and one where consumer 1 subscribes to a topic.\<close>

definition zero_q :: MessageQueue where
  "zero_q = snd (createTopic ''orders'' 0 MessageQueue_new)"

definition one_sub :: world where
  "one_sub = subscribe 1 ''orders'' (MessageQueue_new, fresh_env quiet)"

text \<open>The broker of \<open>one_sub\<close> after \<^verbatim>\<open>stop\<close> of consumer 1.\<close>

definition one_stopped :: world where
  "one_stopped = (fst one_sub, Consumer_stop 1 (snd one_sub))"

text \<open>
  Brokers reached from the empty one: a topic \<^verbatim>\<open>orders\<close> of capacity 2 is created;
  then consumer 1 subscribes to it; and consumers 1 and 2 subscribe to \<^verbatim>\<open>orders\<close> and
  consumer 1 to \<^verbatim>\<open>alerts\<close>.
\<close>

definition created :: world where
  "created = final (run [CreateTopic ''orders'' 2] (MessageQueue_new, fresh_env quiet))"

definition subscribed :: world where
  "subscribed = final (run [CreateTopic ''orders'' 2, Subscribe 1 ''orders'']
                         (MessageQueue_new, fresh_env quiet))"

definition two_topics :: world where
  "two_topics = final (run [Subscribe 1 ''orders'', Subscribe 2 ''orders'', Subscribe 1 ''alerts'']
                         (MessageQueue_new, fresh_env quiet))"

text \<open>
  The broker after a topic \<^verbatim>\<open>orders\<close> of capacity 2 is created and three messages
  are published on it.
\<close>

definition three_published :: world where
  "three_published = final (run [CreateTopic ''orders'' 2,
                Publish ''orders'' ''Order created'' Map.empty ''m1'' 0,
                Publish ''orders'' ''Order created'' Map.empty ''m2'' 0,
                Publish ''orders'' ''Order created'' Map.empty ''m3'' 0]
              (MessageQueue_new, fresh_env quiet))"

text \<open>Consumer 1, whose handler never returns, subscribes to a topic \<^verbatim>\<open>orders\<close>.\<close>

definition hang_sub :: world where
  "hang_sub = subscribe 1 ''orders'' (MessageQueue_new, fresh_env slow_and_ok)"

text \<open>
  Consumer 1 has a handler that throws an object that is not a \<^verbatim>\<open>std::exception\<close>;
  every other handler returns. Consumers 1 and 2 subscribe to a topic \<^verbatim>\<open>alerts\<close>.
\<close>

definition odd_and_ok :: "cref \<Rightarrow> string \<times> (Message \<Rightarrow> outcome)" where
  "odd_and_ok c = (if c = 1 then (''odd'', \<lambda>m. Throw OtherThrow) else (''ok'', \<lambda>m. Return))"

definition alerts_odd :: "Topic \<times> env" where
  "alerts_odd = Topic_subscribe 2 (Topic_subscribe 1 (Topic_new ''alerts'' 10, fresh_env odd_and_ok))"

text \<open>
  Consumer 1, whose handler never returns, and consumer 2 subscribe to a topic \<^verbatim>\<open>x\<close>
  in that order; then consumer 2 is stopped.
\<close>

definition stopped_behind_slow :: world where
  "stopped_behind_slow =
     final (run [Subscribe 1 ''x'', Subscribe 2 ''x'', Stop 2] (MessageQueue_new, fresh_env slow_and_ok))"

section \<open>Properties\<close>

subsection \<open>Basic facts\<close>

lemma final_simps [simp]: "final (Inl a) = a" "final (Inr a) = a"
  by (simp_all add: final_def)

lemma Topic_unsubscribe_fst:
  "fst (Topic_unsubscribe c te) = (fst te)\<lparr>subscribers := remove1 c (subscribers (fst te))\<rparr>"
  by (cases te) (simp add: Topic_unsubscribe_def remove1_idem)

lemma Topic_unsubscribe_snd:
  "snd (Topic_unsubscribe c te) =
     (if c \<in> set (subscribers (fst te))
      then Consumer_removeSubscription c (name (fst te)) (snd te) else snd te)"
  by (cases te) (simp add: Topic_unsubscribe_def)

lemma Topic_subscribe_fst:
  "fst (Topic_subscribe c te) =
     (if c \<in> set (subscribers (fst te)) then fst te
      else (fst te)\<lparr>subscribers := subscribers (fst te) @ [c]\<rparr>)"
  by (cases te) (simp add: Topic_subscribe_def)

lemma Topic_subscribe_snd:
  "snd (Topic_subscribe c te) =
     (if c \<in> set (subscribers (fst te)) then snd te
      else Consumer_addSubscription c (name (fst te)) (snd te))"
  by (cases te) (simp add: Topic_subscribe_def)

lemma buffer_of_unsubscribe [simp]: "buffer_of (fst (Topic_unsubscribe c te)) = buffer_of (fst te)"
  by (simp add: Topic_unsubscribe_fst buffer_of_def)

lemma buffer_of_subscribe [simp]: "buffer_of (fst (Topic_subscribe c te)) = buffer_of (fst te)"
  by (simp add: Topic_subscribe_fst buffer_of_def)

lemma buffer_of_deliver_loop [simp]:
  "buffer_of (fst (final (deliver_loop m cs te))) = buffer_of (fst te)"
  by (induction cs arbitrary: te) (auto split: sum.splits)

lemma buffer_of_addMessage:
  "buffer_of (fst (final (Topic_addMessage m te))) =
     (if unat (maxSize (fst te)) \<le> length (messages (fst te)) then buffer_of (fst te)
      else (name (fst te), maxSize (fst te), messages (fst te) @ [m], messageCount (fst te) + 1))"
  by (cases te) (simp add: Topic_addMessage_def Topic_deliverMessage_def, simp add: buffer_of_def)

lemma counted_buffer: "buffer_of t' = buffer_of t \<Longrightarrow> counted t' = counted t"
  by (simp add: counted_def buffer_of_def)

lemma unat_succ: "unat (x::size_t) < unat (y :: size_t) \<Longrightarrow> unat (x + 1) = unat x + 1"
proof -
  have "unat y < 2 ^ 64" using unsigned_less [of y] by simp
  moreover assume "unat x < unat y"
  ultimately show ?thesis by (simp add: unat_word_ariths)
qed

lemma counted_new: "counted (Topic_new n C)"
  by (simp add: counted_def Topic_new_def)

lemma counted_addMessage:
  assumes c: "counted (fst te)"
  shows "counted (fst (final (Topic_addMessage m te)))"
proof (cases "unat (maxSize (fst te)) \<le> length (messages (fst te))")
  case True
  then have "buffer_of (fst (final (Topic_addMessage m te))) = buffer_of (fst te)"
    by (simp add: buffer_of_addMessage)
  from counted_buffer [OF this] c show ?thesis by simp
next
  case False
  with c have "unat (messageCount (fst te)) < unat (maxSize (fst te))"
    by (simp add: counted_def)
  then have "unat (messageCount (fst te) + 1) = unat (messageCount (fst te)) + 1"
    by (rule unat_succ)
  with False c buffer_of_addMessage [of m te] show ?thesis
    by (simp add: counted_def buffer_of_def)
qed

lemma topic_exec_counted:
  assumes c: "counted (fst te)"
  shows "counted (fst (final (topic_exec x te)))"
proof (cases x)
  case (AddMessage m)
  with c show ?thesis by (simp add: counted_addMessage)
next
  case (TSubscribe c')
  with c counted_buffer [OF buffer_of_subscribe, of c' te] show ?thesis by simp
next
  case (TUnsubscribe c')
  with c counted_buffer [OF buffer_of_unsubscribe, of c' te] show ?thesis by simp
next
  case (TStop c')
  with c show ?thesis by simp
qed

lemma topic_run_counted: "counted (fst te) \<Longrightarrow> counted (fst (final (topic_run xs te)))"
proof (induction xs arbitrary: te)
  case Nil
  then show ?case by simp
next
  case (Cons x xs)
  from Cons.prems have "counted (fst (final (topic_exec x te)))" by (rule topic_exec_counted)
  with Cons.IH show ?case by (cases "topic_exec x te") simp_all
qed

lemma maxSize_topic_exec: "maxSize (fst (final (topic_exec x te))) = maxSize (fst te)"
proof (cases x)
  case (AddMessage m)
  then show ?thesis using buffer_of_addMessage [of m te] by (simp add: buffer_of_def split: if_splits)
next
  case (TSubscribe c)
  then show ?thesis using buffer_of_subscribe [of c te] by (simp add: buffer_of_def)
next
  case (TUnsubscribe c)
  then show ?thesis using buffer_of_unsubscribe [of c te] by (simp add: buffer_of_def)
next
  case (TStop c)
  then show ?thesis by simp
qed

lemma maxSize_topic_run: "maxSize (fst (final (topic_run xs te))) = maxSize (fst te)"
proof (induction xs arbitrary: te)
  case Nil
  then show ?case by simp
next
  case (Cons x xs)
  show ?case using Cons.IH [of "final (topic_exec x te)"] maxSize_topic_exec [of x te]
    by (cases "topic_exec x te") simp_all
qed

lemma buffer_of_exec_full:
  assumes "unat (maxSize (fst te)) \<le> length (messages (fst te))"
  shows "buffer_of (fst (final (topic_exec x te))) = buffer_of (fst te)"
proof (cases x)
  case (AddMessage m)
  with assms show ?thesis by (simp add: buffer_of_addMessage)
qed simp_all

lemma buffer_of_run_full:
  assumes "unat (maxSize (fst te)) \<le> length (messages (fst te))"
  shows "buffer_of (fst (final (topic_run xs te))) = buffer_of (fst te)"
  using assms
proof (induction xs arbitrary: te)
  case Nil
  then show ?case by simp
next
  case (Cons x xs)
  have b: "buffer_of (fst (final (topic_exec x te))) = buffer_of (fst te)"
    using Cons.prems by (rule buffer_of_exec_full)
  show ?case
  proof (cases "topic_exec x te")
    case (Inl a)
    with b show ?thesis by simp
  next
    case (Inr a)
    with b Cons.prems have "unat (maxSize (fst a)) \<le> length (messages (fst a))"
      by (simp add: buffer_of_def)
    from Cons.IH [OF this] b Inr show ?thesis by simp
  qed
qed

lemma messages_exec_grow:
  "\<exists>ys. messages (fst (final (topic_exec x te))) = messages (fst te) @ ys"
proof (cases x)
  case (AddMessage m)
  then show ?thesis using buffer_of_addMessage [of m te]
    by (simp add: buffer_of_def split: if_splits)
next
  case (TSubscribe c)
  then show ?thesis using buffer_of_subscribe [of c te] by (simp add: buffer_of_def)
next
  case (TUnsubscribe c)
  then show ?thesis using buffer_of_unsubscribe [of c te] by (simp add: buffer_of_def)
next
  case (TStop c)
  then show ?thesis by simp
qed

lemma messages_run_grow:
  "\<exists>ys. messages (fst (final (topic_run xs te))) = messages (fst te) @ ys"
proof (induction xs arbitrary: te)
  case Nil
  then show ?case by simp
next
  case (Cons x xs)
  obtain ys where ys: "messages (fst (final (topic_exec x te))) = messages (fst te) @ ys"
    using messages_exec_grow by blast
  show ?case
  proof (cases "topic_exec x te")
    case (Inl a)
    with ys show ?thesis by simp
  next
    case (Inr a)
    obtain zs where "messages (fst (final (topic_run xs a))) = messages (fst a) @ zs"
      using Cons.IH by blast
    with ys Inr show ?thesis by simp
  qed
qed

lemma counted_stats:
  assumes "counted t"
  shows "messageCount t = of_nat (length (messages t))"
proof -
  have "messageCount t = of_nat (unat (messageCount t))" by simp
  with assms show ?thesis by (simp add: counted_def)
qed

lemma counted_unat_length:
  assumes "counted t"
  shows "unat (of_nat (length (messages t)) :: size_t) = length (messages t)"
  using assms counted_stats [OF assms] by (simp add: counted_def)

lemma counted_getStats:
  assumes "counted t"
  shows "unat (st_messageCount (Topic_getStats t)) = length (messages t)"
    and "unat (queueSize (Topic_getStats t)) = length (messages t)"
  using assms counted_unat_length [OF assms] by (simp_all add: Topic_getStats_def counted_def)

subsection \<open>The delivery loop\<close>

lemma dispatch_unfold:
  "dispatch c m e =
     (if active (heap e c) then
        (case handler (heap e c) m of
           Return \<Rightarrow> Inr (e\<lparr>calls := calls e @ [(c, m)]\<rparr>)
         | Throw x \<Rightarrow> (case x of
             StdException w \<Rightarrow>
               Inr (e\<lparr>calls := calls e @ [(c, m)],
                      cerr := cerr e @ [''Error processing message '' @ msg_id m @ '': '' @ w]\<rparr>)
           | OtherThrow \<Rightarrow> Inr (e\<lparr>calls := calls e @ [(c, m)]\<rparr>))
         | Hang \<Rightarrow> Inl (e\<lparr>calls := calls e @ [(c, m)]\<rparr>))
      else Inr e)"
  by (simp add: dispatch_def Consumer_onMessage_def Let_def split: outcome.splits exn.splits)

lemma heap_dispatch [simp]: "heap (final (dispatch c m e)) = heap e"
  by (simp add: dispatch_unfold split: outcome.splits exn.splits)

lemma calls_dispatch:
  "calls (final (dispatch c m e)) = (if active (heap e c) then calls e @ [(c, m)] else calls e)"
  by (simp add: dispatch_unfold split: outcome.splits exn.splits)

lemma isl_dispatch: "isl (dispatch c m e) \<longleftrightarrow> active (heap e c) \<and> handler (heap e c) m = Hang"
  by (simp add: dispatch_unfold split: outcome.splits exn.splits)

lemma fixed_of_unsubscribe [simp]: "fixed_of (snd (Topic_unsubscribe c te)) = fixed_of (snd te)"
  by (rule ext) (simp add: Topic_unsubscribe_snd fixed_of_def Consumer_removeSubscription_def)

lemma fixed_of_subscribe [simp]: "fixed_of (snd (Topic_subscribe c te)) = fixed_of (snd te)"
  by (rule ext) (simp add: Topic_subscribe_snd fixed_of_def Consumer_addSubscription_def)

lemma calls_unsubscribe [simp]: "calls (snd (Topic_unsubscribe c te)) = calls (snd te)"
  by (simp add: Topic_unsubscribe_snd Consumer_removeSubscription_def)

lemma calls_subscribe [simp]: "calls (snd (Topic_subscribe c te)) = calls (snd te)"
  by (simp add: Topic_subscribe_snd Consumer_addSubscription_def)

lemma fixed_of_dispatch [simp]: "fixed_of (final (dispatch c m e)) = fixed_of e"
  by (rule ext) (simp add: fixed_of_def)

lemma fixed_of_active: "fixed_of e' = fixed_of e \<Longrightarrow> active (heap e' c) = active (heap e c)"
  by (drule fun_cong [of _ _ c]) (simp add: fixed_of_def)

lemma fixed_of_handler: "fixed_of e' = fixed_of e \<Longrightarrow> handler (heap e' c) = handler (heap e c)"
  by (drule fun_cong [of _ _ c]) (simp add: fixed_of_def)

lemma active_unsubscribe [simp]:
  "active (heap (snd (Topic_unsubscribe d te)) x) = active (heap (snd te) x)"
  by (rule fixed_of_active) simp

lemma handler_unsubscribe [simp]:
  "handler (heap (snd (Topic_unsubscribe d te)) x) = handler (heap (snd te) x)"
  by (rule fixed_of_handler) simp

lemma fixed_of_deliver_loop [simp]:
  "fixed_of (snd (final (deliver_loop m cs te))) = fixed_of (snd te)"
proof (induction cs arbitrary: te)
  case Nil
  then show ?case by simp
next
  case (Cons c cs)
  show ?case
  proof (cases "Consumer_isActive c (snd te)")
    case True
    show ?thesis
    proof (cases "dispatch c m (snd te)")
      case (Inl e')
      with True fixed_of_dispatch [of c m "snd te"] show ?thesis by simp
    next
      case (Inr e')
      with True fixed_of_dispatch [of c m "snd te"] Cons.IH [of "(fst te, e')"] show ?thesis by simp
    qed
  next
    case False
    with Cons.IH [of "Topic_unsubscribe c te"] show ?thesis by simp
  qed
qed

lemma calls_to_deliver_loop:
  assumes "\<not> active (heap (snd te) c)"
  shows "calls_to c (snd (final (deliver_loop m cs te))) = calls_to c (snd te)"
  using assms
proof (induction cs arbitrary: te)
  case Nil
  then show ?case by simp
next
  case (Cons d cs)
  show ?case
  proof (cases "Consumer_isActive d (snd te)")
    case True
    with Cons.prems have dc: "d \<noteq> c" by (auto simp: Consumer_isActive_def)
    from True have cl: "calls (final (dispatch d m (snd te))) = calls (snd te) @ [(d, m)]"
      by (simp add: calls_dispatch Consumer_isActive_def)
    show ?thesis
    proof (cases "dispatch d m (snd te)")
      case (Inl e')
      with True cl dc show ?thesis by (simp add: calls_to_def)
    next
      case (Inr e')
      with heap_dispatch [of d m "snd te"] Cons.prems have "\<not> active (heap (snd (fst te, e')) c)" by simp
      from Cons.IH [OF this] Inr True cl dc show ?thesis by (simp add: calls_to_def)
    qed
  next
    case False
    from Cons.prems
    have "\<not> active (heap (snd (Topic_unsubscribe d te)) c)" by simp
    from Cons.IH [OF this] False show ?thesis by (simp add: calls_to_def)
  qed
qed

lemma deliver_loop_returns:
  assumes "\<forall>c\<in>set cs. active (heap (snd te) c) \<longrightarrow> handler (heap (snd te) c) m \<noteq> Hang"
  shows "\<exists>te'. deliver_loop m cs te = Inr te'"
  using assms
proof (induction cs arbitrary: te)
  case Nil
  then show ?case by simp
next
  case (Cons d cs)
  show ?case
  proof (cases "Consumer_isActive d (snd te)")
    case True
    with Cons.prems have "\<not> isl (dispatch d m (snd te))"
      by (simp add: isl_dispatch Consumer_isActive_def)
    then obtain e' where e': "dispatch d m (snd te) = Inr e'" by (cases "dispatch d m (snd te)") auto
    with heap_dispatch [of d m "snd te"] have "heap e' = heap (snd te)" by simp
    with Cons.prems have "\<forall>c\<in>set cs. active (heap (snd (fst te, e')) c) \<longrightarrow> handler (heap (snd (fst te, e')) c) m \<noteq> Hang"
      by simp
    from Cons.IH [OF this] True e' show ?thesis by simp
  next
    case False
    have "\<forall>c\<in>set cs. active (heap (snd (Topic_unsubscribe d te)) c)
            \<longrightarrow> handler (heap (snd (Topic_unsubscribe d te)) c) m \<noteq> Hang"
      using Cons.prems by simp
    from Cons.IH [OF this] False show ?thesis by simp
  qed
qed

lemma deliver_loop_result:
  assumes "deliver_loop m cs te = Inr te'" "subscribers (fst te) = pre @ cs"
    "\<forall>x\<in>set pre. active (heap (snd te) x)"
  shows "subscribers (fst te') = pre @ filter (\<lambda>x. active (heap (snd te) x)) cs
       \<and> calls (snd te') = calls (snd te) @ map (\<lambda>c. (c, m)) (filter (\<lambda>x. active (heap (snd te) x)) cs)"
  using assms
proof (induction cs arbitrary: te pre)
  case Nil
  then show ?case by simp
next
  case (Cons d cs)
  show ?case
  proof (cases "Consumer_isActive d (snd te)")
    case True
    then have act: "active (heap (snd te) d)" by (simp add: Consumer_isActive_def)
    from Cons.prems(1) True obtain e' where e': "dispatch d m (snd te) = Inr e'"
      and rest: "deliver_loop m cs (fst te, e') = Inr te'"
      by (cases "dispatch d m (snd te)") auto
    from e' heap_dispatch [of d m "snd te"] have h: "heap e' = heap (snd te)" by simp
    from e' calls_dispatch [of d m "snd te"] act have c: "calls e' = calls (snd te) @ [(d, m)]" by simp
    have "subscribers (fst (fst te, e')) = (pre @ [d]) @ cs" using Cons.prems(2) by simp
    moreover have "\<forall>x\<in>set (pre @ [d]). active (heap (snd (fst te, e')) x)"
      using Cons.prems(3) act h by simp
    ultimately show ?thesis using Cons.IH [OF rest, of "pre @ [d]"] h c act by simp
  next
    case False
    then have inact: "\<not> active (heap (snd te) d)" by (simp add: Consumer_isActive_def)
    from Cons.prems(1) False have rest: "deliver_loop m cs (Topic_unsubscribe d te) = Inr te'" by simp
    from inact Cons.prems(3) have "d \<notin> set pre" by auto
    then have "remove1 d (pre @ d # cs) = pre @ cs" by (simp add: remove1_append)
    then have s: "subscribers (fst (Topic_unsubscribe d te)) = pre @ cs"
      using Cons.prems(2) by (simp add: Topic_unsubscribe_fst)
    have a: "active (heap (snd (Topic_unsubscribe d te)) x) = active (heap (snd te) x)" for x
      by simp
    from Cons.prems(3) a have "\<forall>x\<in>set pre. active (heap (snd (Topic_unsubscribe d te)) x)" by simp
    from Cons.IH [OF rest s this] a inact show ?thesis by simp
  qed
qed

lemma addMessage_accepted:
  assumes room: "length (messages t) < unat (maxSize t)"
    and nohang: "\<forall>c\<in>set (subscribers t). active (heap e c) \<longrightarrow> handler (heap e c) m \<noteq> Hang"
  shows "\<exists>t' e'. Topic_addMessage m (t, e) = Inr (t', e')
       \<and> buffer_of t' = (name t, maxSize t, messages t @ [m], messageCount t + 1)
       \<and> subscribers t' = filter (\<lambda>x. active (heap e x)) (subscribers t)
       \<and> calls e' = calls e @ map (\<lambda>c. (c, m)) (filter (\<lambda>x. active (heap e x)) (subscribers t))"
proof -
  let ?t1 = "t\<lparr>messages := messages t @ [m], messageCount := messageCount t + 1\<rparr>"
  from room have unfold: "Topic_addMessage m (t, e) = deliver_loop m (subscribers t) (?t1, e)"
    by (simp add: Topic_addMessage_def Topic_deliverMessage_def)
  from nohang obtain te' where te': "deliver_loop m (subscribers t) (?t1, e) = Inr te'"
    using deliver_loop_returns [of "subscribers t" "(?t1, e)" m] by auto
  from deliver_loop_result [OF te', of "[]"]
  have r: "subscribers (fst te') = filter (\<lambda>x. active (heap e x)) (subscribers t)"
    "calls (snd te') = calls e @ map (\<lambda>c. (c, m)) (filter (\<lambda>x. active (heap e x)) (subscribers t))"
    by simp_all
  from buffer_of_deliver_loop [of m "subscribers t" "(?t1, e)"] te'
  have b: "buffer_of (fst te') = (name t, maxSize t, messages t @ [m], messageCount t + 1)"
    by (simp add: buffer_of_def)
  from unfold te' r b show ?thesis by (cases te') simp
qed

lemma createTopic_unfold:
  "createTopic n cap q =
     (case topics q n of None \<Rightarrow> Topic_new n cap | Some t \<Rightarrow> t,
      case topics q n of None \<Rightarrow> q\<lparr>topics := (topics q)(n \<mapsto> Topic_new n cap)\<rparr> | Some t \<Rightarrow> q)"
  by (simp add: createTopic_def split: option.splits)

lemma publish_unfold:
  "publish n p h i ts w =
     (case Topic_addMessage (Message_new i ts n p h)
             (fst (createTopic n default_maxSize (fst w)), snd w) of
        Inl te' \<Rightarrow> Inl ((fst w)\<lparr>topics := (topics (fst w))(n \<mapsto> fst te')\<rparr>, snd te')
      | Inr te' \<Rightarrow> Inr (i, (fst w)\<lparr>topics := (topics (fst w))(n \<mapsto> fst te')\<rparr>, snd te'))"
  by (cases w)
    (simp add: publish_def createTopic_unfold Let_def Message_new_def split: option.splits sum.splits)

subsection \<open>Stopped consumers\<close>

lemma fixed_of_unsubscribe_all [simp]:
  "fixed_of (snd (unsubscribe_all cs te)) = fixed_of (snd te)"
  by (induction cs arbitrary: te) simp_all

lemma calls_unsubscribe_all [simp]:
  "calls (snd (unsubscribe_all cs te)) = calls (snd te)"
  by (induction cs arbitrary: te) simp_all

lemma fixed_of_log [simp]: "fixed_of (e\<lparr>cerr := l\<rparr>) = fixed_of e"
  by (rule ext) (simp add: fixed_of_def)

lemma fixed_of_addMessage [simp]:
  "fixed_of (snd (final (Topic_addMessage m te))) = fixed_of (snd te)"
proof (cases te)
  case (Pair t e)
  show ?thesis
  proof (cases "unat (maxSize t) \<le> length (messages t)")
    case True
    with Pair show ?thesis by (simp add: Topic_addMessage_def)
  next
    case False
    with Pair show ?thesis by (simp add: Topic_addMessage_def Topic_deliverMessage_def)
  qed
qed

lemma calls_to_addMessage:
  assumes "\<not> active (heap (snd te) c)"
  shows "calls_to c (snd (final (Topic_addMessage m te))) = calls_to c (snd te)"
proof (cases te)
  case (Pair t e)
  show ?thesis
  proof (cases "unat (maxSize t) \<le> length (messages t)")
    case True
    with Pair show ?thesis by (simp add: Topic_addMessage_def calls_to_def)
  next
    case False
    with Pair assms
      calls_to_deliver_loop [of "(t\<lparr>messages := messages t @ [m], messageCount := messageCount t + 1\<rparr>, e)" c m "subscribers t"]
    show ?thesis by (simp add: Topic_addMessage_def Topic_deliverMessage_def)
  qed
qed

lemma env_publish:
  "snd (final (exec (Publish n p h i ts) w)) =
     snd (final (Topic_addMessage (Message_new i ts n p h)
                  (fst (createTopic n default_maxSize (fst w)), snd w)))"
  by (cases w) (simp add: publish_unfold split: sum.splits)

lemma stays_stopped_fixed:
  assumes "\<not> active (heap e c)" "fixed_of e' = fixed_of e" "calls e' = calls e"
  shows "stays_stopped c e e'"
  using assms fixed_of_active [of e' e c] by (simp add: stays_stopped_def calls_to_def)

lemma exec_stays_stopped:
  assumes st: "\<not> active (heap (snd w) c)"
  shows "stays_stopped c (snd w) (snd (final (exec x w)))"
proof (cases x)
  case (CreateTopic n cap)
  with st show ?thesis by (simp add: stays_stopped_def)
next
  case (DeleteTopic n)
  have "fixed_of (snd (snd (deleteTopic n w))) = fixed_of (snd w)"
    "calls (snd (snd (deleteTopic n w))) = calls (snd w)"
    by (cases w; simp add: deleteTopic_def split: option.splits)+
  with st DeleteTopic show ?thesis by (simp add: stays_stopped_fixed)
next
  case (Publish n p h i ts)
  let ?te = "(fst (createTopic n default_maxSize (fst w)), snd w)"
  let ?e' = "snd (final (Topic_addMessage (Message_new i ts n p h) ?te))"
  have "fixed_of ?e' = fixed_of (snd w)" using fixed_of_addMessage [of _ ?te] by simp
  then have "\<not> active (heap ?e' c)" using st fixed_of_active [of ?e' "snd w" c] by simp
  moreover have "calls_to c ?e' = calls_to c (snd w)"
    using calls_to_addMessage [of ?te c] st by simp
  ultimately show ?thesis using Publish by (simp only: env_publish stays_stopped_def) simp
next
  case (Subscribe c' n)
  have "fixed_of (snd (subscribe c' n w)) = fixed_of (snd w)"
    "calls (snd (subscribe c' n w)) = calls (snd w)"
    by (cases w; simp add: subscribe_def Let_def split_def)+
  with st Subscribe show ?thesis by (simp add: stays_stopped_fixed)
next
  case (Unsubscribe c' n)
  have "fixed_of (snd (unsubscribe c' n w)) = fixed_of (snd w)"
    "calls (snd (unsubscribe c' n w)) = calls (snd w)"
    by (cases w; simp add: unsubscribe_def Let_def split_def split: option.splits)+
  with st Unsubscribe show ?thesis by (simp add: stays_stopped_fixed)
next
  case (Stop c')
  with st show ?thesis by (simp add: stays_stopped_def Consumer_stop_def calls_to_def)
qed

lemma run_stays_stopped:
  assumes "\<not> active (heap (snd w) c)"
  shows "stays_stopped c (snd w) (snd (final (run xs w)))"
  using assms
proof (induction xs arbitrary: w)
  case Nil
  then show ?case by (simp add: stays_stopped_def)
next
  case (Cons x xs)
  from exec_stays_stopped [OF Cons.prems, of x]
  have step: "stays_stopped c (snd w) (snd (final (exec x w)))" .
  show ?case
  proof (cases "exec x w")
    case (Inl w')
    with step show ?thesis by simp
  next
    case (Inr w')
    with step have "\<not> active (heap (snd w') c)" by (simp add: stays_stopped_def)
    from Cons.IH [OF this] step Inr show ?thesis by (simp add: stays_stopped_def)
  qed
qed

subsection \<open>The invariant of the broker\<close>

lemma topic_frame_refl [simp]: "topic_frame te te"
  by (simp add: topic_frame_def others_kept_def)

lemma topic_frame_trans: "topic_frame a b \<Longrightarrow> topic_frame b c \<Longrightarrow> topic_frame a c"
  by (auto simp: topic_frame_def others_kept_def)

lemma linked_unsubscribe:
  assumes "linked (fst te) (snd te)"
  shows "linked (fst (Topic_unsubscribe c te)) (snd (Topic_unsubscribe c te))"
  using assms
  by (auto simp: linked_def Topic_unsubscribe_fst Topic_unsubscribe_snd
      Consumer_removeSubscription_def)

lemma topic_frame_unsubscribe [simp]: "topic_frame te (Topic_unsubscribe c te)"
  unfolding topic_frame_def
proof (intro conjI impI)
  show "name (fst (Topic_unsubscribe c te)) = name (fst te)"
    by (simp add: Topic_unsubscribe_fst)
  show "set (subscribers (fst (Topic_unsubscribe c te))) \<subseteq> set (subscribers (fst te))"
    by (simp add: Topic_unsubscribe_fst set_remove1_subset)
  show "others_kept (name (fst te)) (snd te) (snd (Topic_unsubscribe c te))"
    by (simp add: others_kept_def Topic_unsubscribe_snd Consumer_removeSubscription_def)
  show "linked (fst (Topic_unsubscribe c te)) (snd (Topic_unsubscribe c te))"
    if "linked (fst te) (snd te)"
    using that by (rule linked_unsubscribe)
qed

lemma linked_heap: "heap e' = heap e \<Longrightarrow> subscribers t' = subscribers t \<Longrightarrow> name t' = name t
  \<Longrightarrow> linked t' e' = linked t e"
  by (simp add: linked_def)

lemma topic_frame_same:
  assumes "heap (snd te') = heap (snd te)" "subscribers (fst te') = subscribers (fst te)"
    "name (fst te') = name (fst te)"
  shows "topic_frame te te'"
  using assms linked_heap [of "snd te'" "snd te" "fst te'" "fst te"]
  by (simp add: topic_frame_def others_kept_def)

lemma topic_frame_dispatch: "topic_frame te (fst te, final (dispatch c m (snd te)))"
  by (rule topic_frame_same) simp_all

lemma topic_frame_deliver_loop: "topic_frame te (final (deliver_loop m cs te))"
proof (induction cs arbitrary: te)
  case Nil
  then show ?case by simp
next
  case (Cons c cs)
  show ?case
  proof (cases "Consumer_isActive c (snd te)")
    case True
    note d = topic_frame_dispatch [of te c m]
    show ?thesis
    proof (cases "dispatch c m (snd te)")
      case (Inl e')
      with True d show ?thesis by simp
    next
      case (Inr e')
      with d have "topic_frame te (fst te, e')" by simp
      from topic_frame_trans [OF this Cons.IH [of "(fst te, e')"]] True Inr show ?thesis by simp
    qed
  next
    case False
    from topic_frame_trans [OF topic_frame_unsubscribe Cons.IH [of "Topic_unsubscribe c te"]] False
    show ?thesis by simp
  qed
qed

lemma topic_frame_addMessage: "topic_frame te (final (Topic_addMessage m te))"
proof (cases te)
  case (Pair t e)
  show ?thesis
  proof (cases "unat (maxSize t) \<le> length (messages t)")
    case True
    with Pair show ?thesis by (simp add: Topic_addMessage_def topic_frame_same)
  next
    case False
    let ?te1 = "(t\<lparr>messages := messages t @ [m], messageCount := messageCount t + 1\<rparr>, e)"
    have "topic_frame te ?te1" using Pair by (simp add: topic_frame_same)
    from topic_frame_trans [OF this topic_frame_deliver_loop [of ?te1 m "subscribers t"]] Pair False
    show ?thesis by (simp add: Topic_addMessage_def Topic_deliverMessage_def)
  qed
qed

lemma topic_frame_unsubscribe_all: "topic_frame te (unsubscribe_all cs te)"
proof (induction cs arbitrary: te)
  case Nil
  then show ?case by simp
next
  case (Cons c cs)
  from topic_frame_trans [OF topic_frame_unsubscribe Cons.IH [of "Topic_unsubscribe c te"]]
  show ?case by simp
qed

lemma subscribers_unsubscribe_all:
  assumes "distinct (subscribers (fst te))"
  shows "set (subscribers (fst (unsubscribe_all cs te))) = set (subscribers (fst te)) - set cs"
  using assms
proof (induction cs arbitrary: te)
  case Nil
  then show ?case by simp
next
  case (Cons c cs)
  have d: "distinct (subscribers (fst (Topic_unsubscribe c te)))"
    using Cons.prems by (simp add: Topic_unsubscribe_fst)
  have "set (subscribers (fst (Topic_unsubscribe c te))) = set (subscribers (fst te)) - {c}"
    using Cons.prems by (simp add: Topic_unsubscribe_fst)
  with Cons.IH [OF d] show ?case by auto
qed

lemma linked_others: "others_kept n e e' \<Longrightarrow> name t \<noteq> n \<Longrightarrow> linked t e' = linked t e"
  by (simp add: linked_def others_kept_def)

lemma broker_inv_Some:
  assumes "broker_inv w" "topics (fst w) n = Some t"
  shows "name t = n" "linked t (snd w)" "set (subscribers t) \<subseteq> set (consumers (fst w))"
  using assms unfolding broker_inv_def by blast+

lemma broker_inv_None:
  assumes "broker_inv w" "topics (fst w) n = None"
  shows "n \<notin> subscribedTopics (heap (snd w) c)"
  using assms unfolding broker_inv_def by blast

lemma broker_invI:
  assumes "\<And>n t. topics (fst w) n = Some t \<Longrightarrow>
      name t = n \<and> linked t (snd w) \<and> set (subscribers t) \<subseteq> set (consumers (fst w))"
    and "\<And>n c. topics (fst w) n = None \<Longrightarrow> n \<notin> subscribedTopics (heap (snd w) c)"
  shows "broker_inv w"
  using assms unfolding broker_inv_def by blast

lemma broker_inv_update:
  assumes inv: "broker_inv (q, e)" and reg: "topics q n = Some t"
    and fr: "topic_frame (t, e) (t', e')"
  shows "broker_inv (q\<lparr>topics := (topics q)(n \<mapsto> t')\<rparr>, e')"
proof (rule broker_invI)
  from broker_inv_Some [OF inv, of n t] reg
  have t: "name t = n" "linked t e" "set (subscribers t) \<subseteq> set (consumers q)" by simp_all
  from fr t have t': "name t' = n" "linked t' e'" "set (subscribers t') \<subseteq> set (consumers q)"
    and ok: "others_kept n e e'"
    by (auto simp: topic_frame_def)
  let ?w = "(q\<lparr>topics := (topics q)(n \<mapsto> t')\<rparr>, e')"
  show "name u = n' \<and> linked u (snd ?w) \<and> set (subscribers u) \<subseteq> set (consumers (fst ?w))"
    if "topics (fst ?w) n' = Some u" for n' u
  proof (cases "n' = n")
    case True
    with t' that show ?thesis by simp
  next
    case False
    with that have old: "topics q n' = Some u" by simp
    from broker_inv_Some [OF inv, of n' u] old
    have u: "name u = n'" "linked u e" "set (subscribers u) \<subseteq> set (consumers q)" by simp_all
    with False linked_others [OF ok, of u] show ?thesis by simp
  qed
  show "n' \<notin> subscribedTopics (heap (snd ?w) c)" if "topics (fst ?w) n' = None" for n' c
  proof -
    from that have ne: "n' \<noteq> n" and old: "topics q n' = None" by (auto split: if_splits)
    from broker_inv_None [OF inv, of n' c] old have "n' \<notin> subscribedTopics (heap e c)" by simp
    with ok ne show ?thesis by (simp add: others_kept_def)
  qed
qed

lemma broker_inv_createTopic:
  assumes inv: "broker_inv (q, e)"
  shows "broker_inv (snd (createTopic n cap q), e)"
proof (cases "topics q n")
  case None
  let ?w = "(q\<lparr>topics := (topics q)(n \<mapsto> Topic_new n cap)\<rparr>, e)"
  have "broker_inv ?w"
  proof (rule broker_invI)
    show "name u = n' \<and> linked u (snd ?w) \<and> set (subscribers u) \<subseteq> set (consumers (fst ?w))"
      if "topics (fst ?w) n' = Some u" for n' u
    proof (cases "n' = n")
      case True
      with that have "u = Topic_new n cap" by simp
      moreover from broker_inv_None [OF inv, of n] None
      have "\<forall>c. n \<notin> subscribedTopics (heap e c)" by simp
      ultimately show ?thesis using True by (simp add: Topic_new_def linked_def)
    next
      case False
      with that have "topics q n' = Some u" by simp
      from broker_inv_Some [OF inv, of n' u] this show ?thesis by simp
    qed
    show "n' \<notin> subscribedTopics (heap (snd ?w) c)" if "topics (fst ?w) n' = None" for n' c
    proof -
      from that have "topics q n' = None" by (auto split: if_splits)
      from broker_inv_None [OF inv, of n' c] this show ?thesis by simp
    qed
  qed
  with None show ?thesis by (simp add: createTopic_unfold)
next
  case (Some t)
  with inv show ?thesis by (simp add: createTopic_unfold)
qed

lemma createTopic_registered:
  "topics (snd (createTopic n cap q)) n = Some (fst (createTopic n cap q))"
  by (simp add: createTopic_unfold split: option.splits)

lemma createTopic_keeps:
  "(snd (createTopic n cap q))\<lparr>topics := (topics (snd (createTopic n cap q)))(n \<mapsto> t')\<rparr>
     = q\<lparr>topics := (topics q)(n \<mapsto> t')\<rparr>"
  by (simp add: createTopic_unfold split: option.splits)

lemma broker_inv_consumers:
  assumes "broker_inv (q, e)" "set (consumers q) \<subseteq> set cs"
  shows "broker_inv (q\<lparr>consumers := cs\<rparr>, e)"
  using assms unfolding broker_inv_def by auto

lemma broker_inv_publish:
  assumes inv: "broker_inv w"
  shows "broker_inv (final (exec (Publish n p h i ts) w))"
proof -
  let ?q1 = "snd (createTopic n default_maxSize (fst w))"
  let ?t = "fst (createTopic n default_maxSize (fst w))"
  let ?te' = "final (Topic_addMessage (Message_new i ts n p h) (?t, snd w))"
  from inv have "broker_inv (fst w, snd w)" by simp
  then have inv1: "broker_inv (?q1, snd w)" by (rule broker_inv_createTopic)
  have fr: "topic_frame (?t, snd w) (fst ?te', snd ?te')"
    using topic_frame_addMessage [of "(?t, snd w)"] by simp
  from broker_inv_update [OF inv1 createTopic_registered fr]
  have "broker_inv ((fst w)\<lparr>topics := (topics (fst w))(n \<mapsto> fst ?te')\<rparr>, snd ?te')"
    by (simp add: createTopic_keeps)
  moreover have "final (exec (Publish n p h i ts) w)
      = ((fst w)\<lparr>topics := (topics (fst w))(n \<mapsto> fst ?te')\<rparr>, snd ?te')"
    by (simp add: publish_unfold split: sum.splits)
  ultimately show ?thesis by simp
qed

lemma broker_inv_createTopic_op:
  assumes "broker_inv w"
  shows "broker_inv (final (exec (CreateTopic n cap) w))"
  using broker_inv_createTopic [of "fst w" "snd w" n cap] assms by simp

lemma linked_subscribe:
  assumes "linked (fst te) (snd te)"
  shows "linked (fst (Topic_subscribe c te)) (snd (Topic_subscribe c te))"
  using assms
  by (auto simp: linked_def Topic_subscribe_fst Topic_subscribe_snd Consumer_addSubscription_def)

lemma others_kept_subscribe: "others_kept (name (fst te)) (snd te) (snd (Topic_subscribe c te))"
  by (simp add: others_kept_def Topic_subscribe_snd Consumer_addSubscription_def)

lemma subscribe_unfold:
  "subscribe c n w =
     (if c \<in> set (consumers (fst w))
      then (fst w)\<lparr>topics := (topics (fst w))
              (n \<mapsto> fst (Topic_subscribe c (fst (createTopic n default_maxSize (fst w)), snd w)))\<rparr>
      else (fst w)\<lparr>topics := (topics (fst w))
              (n \<mapsto> fst (Topic_subscribe c (fst (createTopic n default_maxSize (fst w)), snd w))),
             consumers := consumers (fst w) @ [c]\<rparr>,
      snd (Topic_subscribe c (fst (createTopic n default_maxSize (fst w)), snd w)))"
  by (cases w) (simp add: subscribe_def createTopic_unfold Let_def split_def split: option.splits)

lemma broker_inv_subscribe:
  assumes inv: "broker_inv w"
  shows "broker_inv (subscribe c n w)"
proof (rule broker_invI)
  let ?t = "fst (createTopic n default_maxSize (fst w))"
  let ?q1 = "snd (createTopic n default_maxSize (fst w))"
  let ?te' = "Topic_subscribe c (?t, snd w)"
  let ?w' = "subscribe c n w"
  from inv have "broker_inv (fst w, snd w)" by simp
  then have inv1: "broker_inv (?q1, snd w)" by (rule broker_inv_createTopic)
  from broker_inv_Some [OF inv1, of n ?t] createTopic_registered [of n default_maxSize "fst w"]
  have t: "name ?t = n" "linked ?t (snd w)" "set (subscribers ?t) \<subseteq> set (consumers ?q1)"
    by simp_all
  have cons1: "consumers ?q1 = consumers (fst w)"
    by (simp add: createTopic_unfold split: option.splits)
  have top: "topics (fst ?w') = (topics (fst w))(n \<mapsto> fst ?te')"
    and env: "snd ?w' = snd ?te'"
    and cons: "set (consumers (fst ?w')) = insert c (set (consumers (fst w)))"
    by (auto simp: subscribe_unfold)
  have ok: "others_kept n (snd w) (snd ?te')"
    using others_kept_subscribe [of "(?t, snd w)" c] t by simp
  have l': "linked (fst ?te') (snd ?te')"
    using linked_subscribe [of "(?t, snd w)" c] t by simp
  have n': "name (fst ?te') = n" using t by (simp add: Topic_subscribe_fst)
  have s': "set (subscribers (fst ?te')) \<subseteq> insert c (set (consumers (fst w)))"
    using t cons1 by (auto simp: Topic_subscribe_fst)
  show "name u = m \<and> linked u (snd ?w') \<and> set (subscribers u) \<subseteq> set (consumers (fst ?w'))"
    if "topics (fst ?w') m = Some u" for m u
  proof (cases "m = n")
    case True
    with that top have "u = fst ?te'" by simp
    with True n' l' s' env cons show ?thesis by simp
  next
    case False
    with that top have old: "topics (fst w) m = Some u" by simp
    from broker_inv_Some [OF inv old]
    have u: "name u = m" "linked u (snd w)" "set (subscribers u) \<subseteq> set (consumers (fst w))" .
    with False linked_others [OF ok, of u] env cons show ?thesis by auto
  qed
  show "m \<notin> subscribedTopics (heap (snd ?w') x)" if "topics (fst ?w') m = None" for m x
  proof -
    from that top have ne: "m \<noteq> n" and old: "topics (fst w) m = None" by (auto split: if_splits)
    from broker_inv_None [OF inv old] have "m \<notin> subscribedTopics (heap (snd w) x)" .
    with ok ne env show ?thesis by (simp add: others_kept_def)
  qed
qed

lemma unsubscribe_unfold:
  "unsubscribe c n w =
     (case topics (fst w) n of
        Some t \<Rightarrow> ((fst w)\<lparr>topics := (topics (fst w))(n \<mapsto> fst (Topic_unsubscribe c (t, snd w)))\<rparr>,
                   snd (Topic_unsubscribe c (t, snd w)))
      | None \<Rightarrow> w)"
  by (cases w) (simp add: unsubscribe_def Let_def split_def split: option.splits)

lemma broker_inv_unsubscribe:
  assumes inv: "broker_inv w"
  shows "broker_inv (unsubscribe c n w)"
proof (cases "topics (fst w) n")
  case None
  with inv show ?thesis by (simp add: unsubscribe_unfold)
next
  case (Some t)
  from inv have i: "broker_inv (fst w, snd w)" by simp
  have fr: "topic_frame (t, snd w) (fst (Topic_unsubscribe c (t, snd w)), snd (Topic_unsubscribe c (t, snd w)))"
    by simp
  from broker_inv_update [OF i Some fr] Some show ?thesis
    by (simp add: unsubscribe_unfold)
qed

lemma deleteTopic_cleans:
  assumes inv: "broker_inv (q, e)" and reg: "topics q n = Some t"
  shows "\<forall>c. n \<notin> subscribedTopics (heap (snd (unsubscribe_all (consumers q) (t, e))) c)"
    and "others_kept n e (snd (unsubscribe_all (consumers q) (t, e)))"
proof -
  let ?te' = "unsubscribe_all (consumers q) (t, e)"
  from broker_inv_Some [OF inv, of n t] reg
  have t: "name t = n" "linked t e" "set (subscribers t) \<subseteq> set (consumers q)" by simp_all
  from topic_frame_unsubscribe_all [of "(t, e)" "consumers q"] t
  have fr: "name (fst ?te') = n" "linked (fst ?te') (snd ?te')" "others_kept n e (snd ?te')"
    by (simp_all add: topic_frame_def)
  from t have "distinct (subscribers (fst (t, e)))" by (simp add: linked_def)
  from subscribers_unsubscribe_all [OF this, of "consumers q"] t
  have "set (subscribers (fst ?te')) = {}" by auto
  with fr show "\<forall>c. n \<notin> subscribedTopics (heap (snd ?te') c)" by (simp add: linked_def)
  from fr show "others_kept n e (snd ?te')" by simp
qed

lemma broker_inv_deleteTopic:
  assumes inv: "broker_inv w"
  shows "broker_inv (snd (deleteTopic n w))"
proof (cases "topics (fst w) n")
  case None
  with inv show ?thesis by (cases w) (simp add: deleteTopic_def)
next
  case (Some t)
  let ?e' = "snd (unsubscribe_all (consumers (fst w)) (t, snd w))"
  let ?w' = "((fst w)\<lparr>topics := (topics (fst w))(n := None)\<rparr>, ?e')"
  from inv have i: "broker_inv (fst w, snd w)" by simp
  from deleteTopic_cleans [OF i Some]
  have gone: "\<forall>c. n \<notin> subscribedTopics (heap ?e' c)" and ok: "others_kept n (snd w) ?e'" .
  have "broker_inv ?w'"
  proof (rule broker_invI)
    show "name u = m \<and> linked u (snd ?w') \<and> set (subscribers u) \<subseteq> set (consumers (fst ?w'))"
      if "topics (fst ?w') m = Some u" for m u
    proof -
      from that have ne: "m \<noteq> n" and old: "topics (fst w) m = Some u" by (auto split: if_splits)
      from broker_inv_Some [OF inv old]
      have u: "name u = m" "linked u (snd w)" "set (subscribers u) \<subseteq> set (consumers (fst w))" .
      with ne linked_others [OF ok, of u] show ?thesis by simp
    qed
    show "m \<notin> subscribedTopics (heap (snd ?w') x)" if "topics (fst ?w') m = None" for m x
    proof (cases "m = n")
      case True
      with gone show ?thesis by simp
    next
      case False
      with that have old: "topics (fst w) m = None" by simp
      from broker_inv_None [OF inv old] have "m \<notin> subscribedTopics (heap (snd w) x)" .
      with ok False show ?thesis by (simp add: others_kept_def)
    qed
  qed
  with Some show ?thesis by (cases w) (simp add: deleteTopic_def)
qed

lemma subscribedTopics_stop [simp]:
  "subscribedTopics (heap (Consumer_stop c e) x) = subscribedTopics (heap e x)"
  by (simp add: Consumer_stop_def)

lemma linked_stop [simp]: "linked t (Consumer_stop c e) = linked t e"
  by (simp add: linked_def)

lemma broker_inv_stop:
  assumes "broker_inv w"
  shows "broker_inv (fst w, Consumer_stop c (snd w))"
  using assms unfolding broker_inv_def by simp

lemma broker_inv_exec:
  assumes inv: "broker_inv w"
  shows "broker_inv (final (exec x w))"
proof (cases x)
  case (CreateTopic n cap)
  with inv show ?thesis using broker_inv_createTopic_op [of w n cap] by simp
next
  case (DeleteTopic n)
  with inv show ?thesis by (simp add: broker_inv_deleteTopic)
next
  case (Publish n p h i ts)
  with inv show ?thesis by (simp only: broker_inv_publish)
next
  case (Subscribe c n)
  with inv show ?thesis by (simp add: broker_inv_subscribe)
next
  case (Unsubscribe c n)
  with inv show ?thesis by (simp add: broker_inv_unsubscribe)
next
  case (Stop c)
  with inv show ?thesis by (simp add: broker_inv_stop)
qed

lemma broker_inv_run:
  assumes "broker_inv w"
  shows "broker_inv (final (run xs w))"
  using assms
proof (induction xs arbitrary: w)
  case Nil
  then show ?case by simp
next
  case (Cons x xs)
  from broker_inv_exec [OF Cons.prems, of x] have step: "broker_inv (final (exec x w))" .
  show ?case
  proof (cases "exec x w")
    case (Inl w')
    with step show ?thesis by simp
  next
    case (Inr w')
    with step Cons.IH [of w'] show ?thesis by simp
  qed
qed

lemma broker_inv_init: "broker_inv (MessageQueue_new, fresh_env mk)"
  by (simp add: broker_inv_def MessageQueue_new_def fresh_env_def Consumer_new_def)

lemma count_list_distinct: "distinct xs \<Longrightarrow> x \<in> set xs \<Longrightarrow> count_list xs x = 1"
  by (induction xs) auto

lemma subscribe_again:
  assumes "topics (fst w) n = Some t" "c \<in> set (subscribers t)" "c \<in> set (consumers (fst w))"
  shows "subscribe c n w = w"
proof -
  from assms(1) have "(fst w)\<lparr>topics := (topics (fst w))(n \<mapsto> t)\<rparr> = fst w"
    by (simp add: map_upd_triv)
  with assms show ?thesis
    by (simp add: subscribe_unfold createTopic_unfold Topic_subscribe_fst Topic_subscribe_snd
        prod_eq_iff)
qed

lemma subscribe_result:
  "topics (fst (subscribe c n w)) n
     = Some (fst (Topic_subscribe c (fst (createTopic n default_maxSize (fst w)), snd w)))"
  "snd (subscribe c n w) = snd (Topic_subscribe c (fst (createTopic n default_maxSize (fst w)), snd w))"
  "c \<in> set (consumers (fst (subscribe c n w)))"
  by (simp_all add: subscribe_unfold)

lemma deleteTopic_unfold:
  "deleteTopic n w =
     (case topics (fst w) n of
        Some t \<Rightarrow> (True, (fst w)\<lparr>topics := (topics (fst w))(n := None)\<rparr>,
                   snd (unsubscribe_all (consumers (fst w)) (t, snd w)))
      | None \<Rightarrow> (False, w))"
  by (cases w) (simp add: deleteTopic_def split: option.splits)

subsection \<open>The counters of registered topics\<close>

lemma all_counted_update:
  assumes "all_counted w" "counted t'"
  shows "all_counted ((fst w)\<lparr>topics := (topics (fst w))(n \<mapsto> t')\<rparr>, e')"
  using assms unfolding all_counted_def by simp

lemma counted_createTopic:
  assumes "all_counted w"
  shows "counted (fst (createTopic n cap (fst w)))"
  using assms unfolding all_counted_def
  by (auto simp: createTopic_unfold counted_new split: option.splits)

lemma all_counted_exec:
  assumes inv: "all_counted w"
  shows "all_counted (final (exec x w))"
proof (cases x)
  case (CreateTopic n cap)
  have "snd (createTopic n cap (fst w))
      = (fst w)\<lparr>topics := (topics (fst w))(n \<mapsto> fst (createTopic n cap (fst w)))\<rparr>"
    by (simp add: createTopic_unfold map_upd_triv split: option.splits)
  with all_counted_update [OF inv counted_createTopic [OF inv, of n cap], of n "snd w"] CreateTopic
  show ?thesis by simp
next
  case (DeleteTopic n)
  with inv show ?thesis unfolding all_counted_def
    by (auto simp: deleteTopic_unfold split: option.splits if_splits)
next
  case (Publish n p h i ts)
  let ?te' = "final (Topic_addMessage (Message_new i ts n p h)
                (fst (createTopic n default_maxSize (fst w)), snd w))"
  have "counted (fst ?te')"
    using counted_addMessage [of "(fst (createTopic n default_maxSize (fst w)), snd w)"]
      counted_createTopic [OF inv] by simp
  from all_counted_update [OF inv this, of n "snd ?te'"]
  have "all_counted ((fst w)\<lparr>topics := (topics (fst w))(n \<mapsto> fst ?te')\<rparr>, snd ?te')" .
  moreover have "final (exec (Publish n p h i ts) w)
      = ((fst w)\<lparr>topics := (topics (fst w))(n \<mapsto> fst ?te')\<rparr>, snd ?te')"
    by (simp add: publish_unfold split: sum.splits)
  ultimately show ?thesis using Publish by simp
next
  case (Subscribe c n)
  let ?te' = "Topic_subscribe c (fst (createTopic n default_maxSize (fst w)), snd w)"
  have "counted (fst ?te')"
    using counted_buffer [OF buffer_of_subscribe, of c "(fst (createTopic n default_maxSize (fst w)), snd w)"]
      counted_createTopic [OF inv, of n default_maxSize] by simp
  from all_counted_update [OF inv this, of n "snd ?te'"] Subscribe
  show ?thesis unfolding all_counted_def by (simp add: subscribe_unfold)
next
  case (Unsubscribe c n)
  show ?thesis
  proof (cases "topics (fst w) n")
    case None
    with inv Unsubscribe show ?thesis by (simp add: unsubscribe_unfold)
  next
    case (Some t)
    with inv have "counted t" unfolding all_counted_def by blast
    with counted_buffer [OF buffer_of_unsubscribe, of c "(t, snd w)"]
    have "counted (fst (Topic_unsubscribe c (t, snd w)))" by simp
    from all_counted_update [OF inv this, of n "snd (Topic_unsubscribe c (t, snd w))"] Some Unsubscribe
    show ?thesis by (simp add: unsubscribe_unfold)
  qed
next
  case (Stop c)
  with inv show ?thesis by (simp add: all_counted_def)
qed

lemma all_counted_run:
  assumes "all_counted w"
  shows "all_counted (final (run xs w))"
  using assms
proof (induction xs arbitrary: w)
  case Nil
  then show ?case by simp
next
  case (Cons x xs)
  from all_counted_exec [OF Cons.prems, of x] have step: "all_counted (final (exec x w))" .
  show ?case
  proof (cases "exec x w")
    case (Inl w')
    with step show ?thesis by simp
  next
    case (Inr w')
    with step Cons.IH [of w'] show ?thesis by simp
  qed
qed

lemma all_counted_init: "all_counted (MessageQueue_new, e)"
  by (simp add: all_counted_def MessageQueue_new_def)

subsection \<open>Calls on a topic that is not registered\<close>

text \<open>
  C7: for a topic name that is not in the registry, \<^verbatim>\<open>getTopicStats\<close> returns
  \<^verbatim>\<open>std::nullopt\<close>, and \<^verbatim>\<open>MessageQueue::unsubscribe\<close> changes neither the broker nor
  any consumer; in particular the name is still not registered afterwards. Neither
  function has a path that throws.
\<close>

theorem unknown_topic_no_effect:
  "topics q n = None \<Longrightarrow>
     getTopicStats n q = None \<and> unsubscribe c n (q, e) = (q, e)
     \<and> topics (fst (unsubscribe c n (q, e))) n = None"
  by (simp add: getTopicStats_def unsubscribe_def)

theorem unknown_topic_no_effect_witness:
  "topics MessageQueue_new ''orders'' = None
   \<and> getTopicStats ''orders'' MessageQueue_new = None
   \<and> unsubscribe 1 ''orders'' (MessageQueue_new, fresh_env (\<lambda>c. ('''', \<lambda>m. Return)))
       = (MessageQueue_new, fresh_env (\<lambda>c. ('''', \<lambda>m. Return)))"
  using unknown_topic_no_effect [of MessageQueue_new "''orders''" 1 "fresh_env (\<lambda>c. ('''', \<lambda>m. Return))"]
  by (simp add: MessageQueue_new_def)

subsection \<open>The capacity given at construction\<close>

text \<open>
  C8 as stated (a capacity of 0 makes the construction fail) does not hold:
  \<^verbatim>\<open>createTopic("orders", 0)\<close> registers a topic whose statistics show the capacity 0.
\<close>

theorem zero_capacity_accepted:
  "getTopicStats ''orders'' (snd (createTopic ''orders'' 0 MessageQueue_new))
     = Some \<lparr>st_name = ''orders'', st_messageCount = 0, queueSize = 0,
              subscriberCount = 0, st_maxSize = 0\<rparr>"
  by (simp add: getTopicStats_def createTopic_def MessageQueue_new_def Topic_new_def
      Topic_getStats_def)

text \<open>
  C8, amended: the constructor of \<^verbatim>\<open>Topic\<close> and \<^verbatim>\<open>createTopic\<close> have no failure path
  and take every capacity as it is given, 0 included: the new topic has exactly the
  capacity asked for, and \<^verbatim>\<open>createTopic\<close> of an unregistered name registers that topic.
  A topic of capacity 0 drops every message: \<^verbatim>\<open>addMessage\<close> leaves it as it is and only
  writes the log line.
\<close>

theorem capacity_taken_as_given:
  "maxSize (Topic_new n cap) = cap
   \<and> (topics q n = None \<longrightarrow>
        createTopic n cap q = (Topic_new n cap, q\<lparr>topics := (topics q)(n \<mapsto> Topic_new n cap)\<rparr>))
   \<and> Topic_addMessage m (Topic_new n 0, e)
       = Inr (Topic_new n 0,
              e\<lparr>cerr := cerr e @ [''Topic '' @ n @ '' is full, dropping message: '' @ msg_id m]\<rparr>)"
  by (simp add: Topic_new_def createTopic_def Topic_addMessage_def)

theorem capacity_taken_as_given_witness:
  "topics MessageQueue_new ''orders'' = None
   \<and> createTopic ''orders'' 0 MessageQueue_new
       = (Topic_new ''orders'' 0, MessageQueue_new\<lparr>topics := [''orders'' \<mapsto> Topic_new ''orders'' 0]\<rparr>)"
  using capacity_taken_as_given [of "''orders''" 0 MessageQueue_new]
  by (simp add: MessageQueue_new_def)

subsection \<open>A handler that never returns\<close>

text \<open>
  C10 fails on the code. Consumer 1, whose handler never returns, and consumer 2, whose
  handler returns, subscribe to topic x in that order. Then \<^verbatim>\<open>publish\<close> on x never
  returns, and the only handler ever called is that of consumer 1: consumer 2 does not
  get the message.
\<close>

theorem publish_stuck_behind_hanging_handler:
  "isl (publish ''x'' ''fire'' Map.empty ''m1'' 0
         (subscribe 2 ''x'' (subscribe 1 ''x'' (MessageQueue_new, fresh_env slow_and_ok))))
   \<and> calls (snd (projl (publish ''x'' ''fire'' Map.empty ''m1'' 0
         (subscribe 2 ''x'' (subscribe 1 ''x'' (MessageQueue_new, fresh_env slow_and_ok))))))
       = [(1, Message_new ''m1'' 0 ''x'' ''fire'' Map.empty)]"
  by (simp add: publish_def subscribe_def createTopic_def MessageQueue_new_def fresh_env_def
      slow_and_ok_def Topic_new_def Topic_subscribe_def Topic_addMessage_def
      Topic_deliverMessage_def default_maxSize_def Consumer_addSubscription_def
      Consumer_isActive_def dispatch_def Consumer_onMessage_def Consumer_new_def Let_def)

subsection \<open>The bounded buffer\<close>

text \<open>
  C1: in every state that a topic of capacity \<open>C\<close> reaches from its construction, by
  any sequence of \<^verbatim>\<open>addMessage\<close>, \<^verbatim>\<open>subscribe\<close>, \<^verbatim>\<open>unsubscribe\<close> and \<^verbatim>\<open>stop\<close> of
  consumers, the buffer holds at most \<open>C\<close> messages. When it holds \<open>C\<close>, \<^verbatim>\<open>addMessage\<close>
  returns with the topic and the consumers as they were and no handler called (only the
  log line is written). When it holds fewer, the message is appended at the tail and
  \<open>messageCount\<close> goes up by exactly one, whether or not the delivery that follows
  comes back.
\<close>

theorem addMessage_respects_capacity:
  assumes "final (topic_run ops (Topic_new n C, e0)) = (t, e)"
  shows "length (messages t) \<le> unat C \<and> maxSize t = C
    \<and> (length (messages t) = unat C \<longrightarrow>
         Topic_addMessage m (t, e)
           = Inr (t, e\<lparr>cerr := cerr e @ [''Topic '' @ name t @ '' is full, dropping message: '' @ msg_id m]\<rparr>))
    \<and> (length (messages t) < unat C \<longrightarrow>
         messages (fst (final (Topic_addMessage m (t, e)))) = messages t @ [m]
         \<and> unat (messageCount (fst (final (Topic_addMessage m (t, e))))) = unat (messageCount t) + 1
         \<and> length (messages (fst (final (Topic_addMessage m (t, e))))) \<le> unat C)"
proof -
  have cnt: "counted t"
    using topic_run_counted [of "(Topic_new n C, e0)" ops] assms by (simp add: counted_new)
  have cap: "maxSize t = C"
    using maxSize_topic_run [of ops "(Topic_new n C, e0)"] assms by (simp add: Topic_new_def)
  have full: "Topic_addMessage m (t, e)
           = Inr (t, e\<lparr>cerr := cerr e @ [''Topic '' @ name t @ '' is full, dropping message: '' @ msg_id m]\<rparr>)"
    if "length (messages t) = unat C"
    using that cap by (simp add: Topic_addMessage_def)
  have room: "messages (fst (final (Topic_addMessage m (t, e)))) = messages t @ [m]
         \<and> unat (messageCount (fst (final (Topic_addMessage m (t, e))))) = unat (messageCount t) + 1
         \<and> length (messages (fst (final (Topic_addMessage m (t, e))))) \<le> unat C"
    if "length (messages t) < unat C"
  proof -
    from that cap cnt have "unat (messageCount t) < unat (maxSize t)"
      by (simp add: counted_def)
    then have "unat (messageCount t + 1) = unat (messageCount t) + 1"
      by (rule unat_succ)
    with that cap cnt buffer_of_addMessage [of m "(t, e)"] show ?thesis
      by (simp add: buffer_of_def counted_def)
  qed
  from cnt cap full room show ?thesis by (simp add: counted_def)
qed

theorem addMessage_respects_capacity_witness:
  "final (topic_run [AddMessage (order_msg ''m1''), AddMessage (order_msg ''m2'')]
            (Topic_new ''orders'' 2, fresh_env quiet)) = (orders2, fresh_env quiet)
   \<and> length (messages orders2) = unat (2 :: size_t)
   \<and> Topic_addMessage (order_msg ''m3'') (orders2, fresh_env quiet)
       = Inr (orders2, (fresh_env quiet)
               \<lparr>cerr := cerr (fresh_env quiet)
                  @ [''Topic '' @ name orders2 @ '' is full, dropping message: ''
                     @ msg_id (order_msg ''m3'')]\<rparr>)
   \<and> final (topic_run [AddMessage (order_msg ''m1'')]
            (Topic_new ''orders'' 2, fresh_env quiet)) = (orders1, fresh_env quiet)
   \<and> length (messages orders1) < unat (2 :: size_t)
   \<and> messages (fst (final (Topic_addMessage (order_msg ''m2'') (orders1, fresh_env quiet))))
       = messages orders1 @ [order_msg ''m2'']
   \<and> unat (messageCount (fst (final (Topic_addMessage (order_msg ''m2'') (orders1, fresh_env quiet)))))
       = unat (messageCount orders1) + 1"
proof -
  have two: "final (topic_run [AddMessage (order_msg ''m1''), AddMessage (order_msg ''m2'')]
            (Topic_new ''orders'' 2, fresh_env quiet)) = (orders2, fresh_env quiet)"
    by (simp add: Topic_addMessage_def Topic_deliverMessage_def Topic_new_def orders2_def)
  have one: "final (topic_run [AddMessage (order_msg ''m1'')]
            (Topic_new ''orders'' 2, fresh_env quiet)) = (orders1, fresh_env quiet)"
    by (simp add: Topic_addMessage_def Topic_deliverMessage_def Topic_new_def orders1_def)
  have l2: "length (messages orders2) = unat (2 :: size_t)" by (simp add: orders2_def)
  have l1: "length (messages orders1) < unat (2 :: size_t)" by (simp add: orders1_def)
  from addMessage_respects_capacity [OF two, of "order_msg ''m3''"]
    addMessage_respects_capacity [OF one, of "order_msg ''m2''"] two one l1 l2
  show ?thesis by simp
qed

text \<open>
  C9: in every state that a topic reaches from its construction, the statistics that
  \<^verbatim>\<open>getStats\<close> returns have both \<open>messageCount\<close> and \<open>queueSize\<close> equal to the number
  of messages in the buffer, and so equal to each other, as has the counter of the
  topic. Nothing removes a message: the buffer of any later state extends the present
  one. Once the buffer holds \<open>maxSize\<close> messages, whatever is called on the topic
  afterwards leaves the buffer as it is, both counters of the statistics stay at the
  length of the buffer, which is \<open>maxSize\<close>, and \<^verbatim>\<open>addMessage\<close> drops the message. And
  in every state that the broker reaches from the empty one, the statistics that
  \<^verbatim>\<open>getTopicStats\<close> returns are those of the registered topic: \<open>messageCount\<close> and
  \<open>queueSize\<close> are the length of its buffer, which is at most its capacity.
\<close>

theorem messageCount_equals_buffer_length:
  "(final (topic_run ops (Topic_new n C, e0)) = (t, e) \<longrightarrow>
      unat (st_messageCount (Topic_getStats t)) = length (messages t)
      \<and> unat (queueSize (Topic_getStats t)) = length (messages t)
      \<and> st_messageCount (Topic_getStats t) = queueSize (Topic_getStats t)
      \<and> unat (messageCount t) = length (messages t)
      \<and> (\<exists>ys. messages (fst (final (topic_run ops' (t, e)))) = messages t @ ys)
      \<and> (length (messages t) = unat (maxSize t) \<longrightarrow>
           messages (fst (final (topic_run ops' (t, e)))) = messages t
           \<and> unat (st_messageCount (Topic_getStats (fst (final (topic_run ops' (t, e))))))
               = length (messages t)
           \<and> unat (queueSize (Topic_getStats (fst (final (topic_run ops' (t, e))))))
               = length (messages t)
           \<and> st_messageCount (Topic_getStats (fst (final (topic_run ops' (t, e))))) = maxSize t
           \<and> queueSize (Topic_getStats (fst (final (topic_run ops' (t, e))))) = maxSize t
           \<and> Topic_addMessage m (final (topic_run ops' (t, e)))
               = Inr (fst (final (topic_run ops' (t, e))),
                      (snd (final (topic_run ops' (t, e))))
                        \<lparr>cerr := cerr (snd (final (topic_run ops' (t, e))))
                           @ [''Topic '' @ name t @ '' is full, dropping message: '' @ msg_id m]\<rparr>)))
   \<and> (final (run bops (MessageQueue_new, fresh_env mk)) = (q, eb)
        \<and> getTopicStats nb q = Some st \<longrightarrow>
      (\<exists>tb. topics q nb = Some tb
         \<and> unat (st_messageCount st) = length (messages tb)
         \<and> unat (queueSize st) = length (messages tb)
         \<and> st_maxSize st = maxSize tb)
      \<and> st_messageCount st = queueSize st \<and> unat (queueSize st) \<le> unat (st_maxSize st))"
proof (rule conjI; rule impI)
  assume reach: "final (topic_run ops (Topic_new n C, e0)) = (t, e)"
  let ?t' = "fst (final (topic_run ops' (t, e)))"
  have cnt: "counted t"
    using topic_run_counted [of "(Topic_new n C, e0)" ops] reach by (simp add: counted_new)
  note now = counted_getStats [OF cnt]
  from now have stats: "st_messageCount (Topic_getStats t) = queueSize (Topic_getStats t)"
    by (simp add: word_unat_eq_iff)
  have grow: "\<exists>ys. messages ?t' = messages t @ ys"
    using messages_run_grow [of ops' "(t, e)"] by simp
  have frozen: "messages ?t' = messages t
         \<and> unat (st_messageCount (Topic_getStats ?t')) = length (messages t)
         \<and> unat (queueSize (Topic_getStats ?t')) = length (messages t)
         \<and> st_messageCount (Topic_getStats ?t') = maxSize t
         \<and> queueSize (Topic_getStats ?t') = maxSize t
         \<and> Topic_addMessage m (final (topic_run ops' (t, e)))
             = Inr (?t', (snd (final (topic_run ops' (t, e))))
                      \<lparr>cerr := cerr (snd (final (topic_run ops' (t, e))))
                         @ [''Topic '' @ name t @ '' is full, dropping message: '' @ msg_id m]\<rparr>)"
    if full: "length (messages t) = unat (maxSize t)"
  proof -
    from full have "buffer_of ?t' = buffer_of t"
      using buffer_of_run_full [of "(t, e)" ops'] by simp
    then have same: "name ?t' = name t" "maxSize ?t' = maxSize t" "messages ?t' = messages t"
      "messageCount ?t' = messageCount t"
      by (simp_all add: buffer_of_def)
    from same cnt have cnt': "counted ?t'" by (simp add: counted_def)
    from counted_getStats [OF cnt'] same
    have later: "unat (st_messageCount (Topic_getStats ?t')) = length (messages t)"
      "unat (queueSize (Topic_getStats ?t')) = length (messages t)"
      by simp_all
    with full
    have at_cap: "st_messageCount (Topic_getStats ?t') = maxSize t"
      "queueSize (Topic_getStats ?t') = maxSize t"
      by (simp_all add: word_unat_eq_iff)
    have drop: "Topic_addMessage m (final (topic_run ops' (t, e)))
             = Inr (?t', (snd (final (topic_run ops' (t, e))))
                      \<lparr>cerr := cerr (snd (final (topic_run ops' (t, e))))
                         @ [''Topic '' @ name t @ '' is full, dropping message: '' @ msg_id m]\<rparr>)"
      using same full by (cases "final (topic_run ops' (t, e))") (simp add: Topic_addMessage_def)
    from same later at_cap drop show ?thesis by simp
  qed
  from cnt now stats grow frozen
  show "unat (st_messageCount (Topic_getStats t)) = length (messages t)
      \<and> unat (queueSize (Topic_getStats t)) = length (messages t)
      \<and> st_messageCount (Topic_getStats t) = queueSize (Topic_getStats t)
      \<and> unat (messageCount t) = length (messages t)
      \<and> (\<exists>ys. messages (fst (final (topic_run ops' (t, e)))) = messages t @ ys)
      \<and> (length (messages t) = unat (maxSize t) \<longrightarrow>
           messages (fst (final (topic_run ops' (t, e)))) = messages t
           \<and> unat (st_messageCount (Topic_getStats (fst (final (topic_run ops' (t, e))))))
               = length (messages t)
           \<and> unat (queueSize (Topic_getStats (fst (final (topic_run ops' (t, e))))))
               = length (messages t)
           \<and> st_messageCount (Topic_getStats (fst (final (topic_run ops' (t, e))))) = maxSize t
           \<and> queueSize (Topic_getStats (fst (final (topic_run ops' (t, e))))) = maxSize t
           \<and> Topic_addMessage m (final (topic_run ops' (t, e)))
               = Inr (fst (final (topic_run ops' (t, e))),
                      (snd (final (topic_run ops' (t, e))))
                        \<lparr>cerr := cerr (snd (final (topic_run ops' (t, e))))
                           @ [''Topic '' @ name t @ '' is full, dropping message: '' @ msg_id m]\<rparr>))"
    by (simp add: counted_def)
next
  assume "final (run bops (MessageQueue_new, fresh_env mk)) = (q, eb)
        \<and> getTopicStats nb q = Some st"
  then have reach: "final (run bops (MessageQueue_new, fresh_env mk)) = (q, eb)"
    and stats: "getTopicStats nb q = Some st" by simp_all
  from reach all_counted_run [OF all_counted_init, of bops "fresh_env mk"]
  have inv: "all_counted (q, eb)" by simp
  from stats obtain tb where tb: "topics q nb = Some tb" and st: "st = Topic_getStats tb"
    by (auto simp: getTopicStats_def split: option.splits)
  from inv tb have cnt: "counted tb" unfolding all_counted_def by auto
  from counted_getStats [OF cnt] st
  have len: "unat (st_messageCount st) = length (messages tb)"
    "unat (queueSize st) = length (messages tb)" by simp_all
  then have eq: "st_messageCount st = queueSize st" by (simp add: word_unat_eq_iff)
  from st have cap: "st_maxSize st = maxSize tb" by (simp add: Topic_getStats_def)
  from cnt len cap have le: "unat (queueSize st) \<le> unat (st_maxSize st)"
    by (simp add: counted_def)
  from tb len cap eq le
  show "(\<exists>tb. topics q nb = Some tb
         \<and> unat (st_messageCount st) = length (messages tb)
         \<and> unat (queueSize st) = length (messages tb)
         \<and> st_maxSize st = maxSize tb)
      \<and> st_messageCount st = queueSize st \<and> unat (queueSize st) \<le> unat (st_maxSize st)"
    by simp
qed

theorem messageCount_equals_buffer_length_witness:
  "final (topic_run [AddMessage (order_msg ''m1'')]
            (Topic_new ''orders'' 2, fresh_env quiet)) = (orders1, fresh_env quiet)
   \<and> unat (st_messageCount (Topic_getStats orders1)) = 1
   \<and> unat (queueSize (Topic_getStats orders1)) = 1
   \<and> length (messages orders1) = 1
   \<and> final (topic_run [AddMessage (order_msg ''m1''), AddMessage (order_msg ''m2'')]
            (Topic_new ''orders'' 2, fresh_env quiet)) = (orders2, fresh_env quiet)
   \<and> unat (st_messageCount (Topic_getStats orders2)) = 2
   \<and> length (messages orders2) = unat (maxSize orders2)
   \<and> messages (fst (final (topic_run [AddMessage (order_msg ''m3''), TSubscribe 1,
                                        AddMessage (order_msg ''m4'')] (orders2, fresh_env quiet))))
       = messages orders2
   \<and> queueSize (Topic_getStats (fst (final (topic_run [AddMessage (order_msg ''m3''),
           TSubscribe 1, AddMessage (order_msg ''m4'')] (orders2, fresh_env quiet))))) = 2
   \<and> getTopicStats ''orders'' (fst three_published)
       = Some \<lparr>st_name = ''orders'', st_messageCount = 2, queueSize = 2, subscriberCount = 0,
                st_maxSize = 2\<rparr>
   \<and> map_option messages (topics (fst three_published) ''orders'')
       = Some [order_msg ''m1'', order_msg ''m2'']"
proof -
  have one: "final (topic_run [AddMessage (order_msg ''m1'')]
            (Topic_new ''orders'' 2, fresh_env quiet)) = (orders1, fresh_env quiet)"
    by (simp add: Topic_addMessage_def Topic_deliverMessage_def Topic_new_def orders1_def)
  have two: "final (topic_run [AddMessage (order_msg ''m1''), AddMessage (order_msg ''m2'')]
            (Topic_new ''orders'' 2, fresh_env quiet)) = (orders2, fresh_env quiet)"
    by (simp add: Topic_addMessage_def Topic_deliverMessage_def Topic_new_def orders2_def)
  have l1: "length (messages orders1) = 1" by (simp add: orders1_def)
  have l2: "length (messages orders2) = unat (maxSize orders2)" "length (messages orders2) = 2"
    by (simp_all add: orders2_def)
  have c2: "maxSize orders2 = 2" by (simp add: orders2_def)
  have three: "final (run [CreateTopic ''orders'' 2,
                Publish ''orders'' ''Order created'' Map.empty ''m1'' 0,
                Publish ''orders'' ''Order created'' Map.empty ''m2'' 0,
                Publish ''orders'' ''Order created'' Map.empty ''m3'' 0]
              (MessageQueue_new, fresh_env quiet)) = (fst three_published, snd three_published)"
    by (simp only: three_published_def prod.collapse)
  have st: "getTopicStats ''orders'' (fst three_published)
       = Some \<lparr>st_name = ''orders'', st_messageCount = 2, queueSize = 2, subscriberCount = 0,
                st_maxSize = 2\<rparr>"
    by (simp add: three_published_def publish_unfold createTopic_unfold MessageQueue_new_def
        Topic_new_def Topic_addMessage_def Topic_deliverMessage_def getTopicStats_def
        Topic_getStats_def)
  have buf: "map_option messages (topics (fst three_published) ''orders'')
       = Some [order_msg ''m1'', order_msg ''m2'']"
    by (simp add: three_published_def publish_unfold createTopic_unfold MessageQueue_new_def
        Topic_new_def Topic_addMessage_def Topic_deliverMessage_def order_msg_def)
  from messageCount_equals_buffer_length [where ops = "[AddMessage (order_msg ''m1'')]"
      and n = "''orders''" and C = 2 and e0 = "fresh_env quiet" and t = orders1
      and e = "fresh_env quiet", THEN conjunct1] one l1
  have a1: "unat (st_messageCount (Topic_getStats orders1)) = 1
    \<and> unat (queueSize (Topic_getStats orders1)) = 1"
    by simp
  from messageCount_equals_buffer_length [where ops = "[AddMessage (order_msg ''m1''),
        AddMessage (order_msg ''m2'')]" and n = "''orders''" and C = 2 and e0 = "fresh_env quiet"
      and t = orders2 and e = "fresh_env quiet"
      and ops' = "[AddMessage (order_msg ''m3''), TSubscribe 1, AddMessage (order_msg ''m4'')]",
      THEN conjunct1] two l2 c2
  have a2: "unat (st_messageCount (Topic_getStats orders2)) = 2
   \<and> messages (fst (final (topic_run [AddMessage (order_msg ''m3''), TSubscribe 1,
                                        AddMessage (order_msg ''m4'')] (orders2, fresh_env quiet))))
       = messages orders2
   \<and> queueSize (Topic_getStats (fst (final (topic_run [AddMessage (order_msg ''m3''),
           TSubscribe 1, AddMessage (order_msg ''m4'')] (orders2, fresh_env quiet))))) = 2"
    by simp
  from messageCount_equals_buffer_length [where bops = "[CreateTopic ''orders'' 2,
                Publish ''orders'' ''Order created'' Map.empty ''m1'' 0,
                Publish ''orders'' ''Order created'' Map.empty ''m2'' 0,
                Publish ''orders'' ''Order created'' Map.empty ''m3'' 0]"
      and mk = quiet and q = "fst three_published" and eb = "snd three_published"
      and nb = "''orders''"
      and st = "\<lparr>st_name = ''orders'', st_messageCount = 2, queueSize = 2, subscriberCount = 0,
                st_maxSize = 2\<rparr>", THEN conjunct2] three st
  have b: "unat (2 :: size_t) \<le> unat (2 :: size_t)" by simp
  from one two l1 l2 a1 a2 b st buf show ?thesis by simp
qed

subsection \<open>Publishing\<close>

text \<open>
  What \<^verbatim>\<open>publish\<close> returns. It gets or creates the topic, builds the message with the
  fresh identifier \<open>i\<close>, and hands it to \<^verbatim>\<open>addMessage\<close>, which enqueues and then
  delivers. Whenever \<^verbatim>\<open>publish\<close> returns, it returns \<open>i\<close>. When the topic is full, it
  returns \<open>i\<close> all the same: the broker is unchanged, no handler is called, and only the
  log line is written, so the caller cannot tell the drop from the result. When no active
  subscriber of the topic has a handler that never returns on this message, \<^verbatim>\<open>publish\<close>
  does return \<open>i\<close>; the topic is registered afterwards, the other topics and the
  consumer registry are as before; a topic created by the call has the default capacity
  and holds the message, and a topic with room has the message at the tail of its buffer,
  one more in \<open>messageCount\<close>, and its active subscribers called in order.
\<close>

lemma publish_result:
  "(publish n p h i ts w = Inr (r, w') \<longrightarrow> r = i)
   \<and> (topics q n = Some t \<and> unat (maxSize t) \<le> length (messages t) \<longrightarrow>
        publish n p h i ts (q, e)
          = Inr (i, q, e\<lparr>cerr := cerr e @ [''Topic '' @ name t @ '' is full, dropping message: '' @ i]\<rparr>))
   \<and> ((\<forall>t c. topics q n = Some t \<longrightarrow> c \<in> set (subscribers t) \<longrightarrow> active (heap e c)
          \<longrightarrow> handler (heap e c) (Message_new i ts n p h) \<noteq> Hang) \<longrightarrow>
        (\<exists>q' e' t'. publish n p h i ts (q, e) = Inr (i, q', e')
           \<and> topics q' n = Some t' \<and> (\<forall>n'. n' \<noteq> n \<longrightarrow> topics q' n' = topics q n')
           \<and> consumers q' = consumers q
           \<and> (case topics q n of
                None \<Rightarrow>
                  maxSize t' = default_maxSize \<and> messages t' = [Message_new i ts n p h]
                  \<and> messageCount t' = 1 \<and> calls e' = calls e
              | Some t \<Rightarrow>
                  if unat (maxSize t) \<le> length (messages t) then t' = t \<and> calls e' = calls e
                  else maxSize t' = maxSize t
                    \<and> messages t' = messages t @ [Message_new i ts n p h]
                    \<and> messageCount t' = messageCount t + 1
                    \<and> calls e' = calls e @ map (\<lambda>c. (c, Message_new i ts n p h))
                                   (filter (\<lambda>x. active (heap e x)) (subscribers t)))))"
proof -
  let ?m = "Message_new i ts n p h"
  have ret: "publish n p h i ts w = Inr (r, w') \<longrightarrow> r = i"
    by (cases w) (auto simp: publish_unfold split: sum.splits)
  have full: "publish n p h i ts (q, e)
          = Inr (i, q, e\<lparr>cerr := cerr e @ [''Topic '' @ name t @ '' is full, dropping message: '' @ i]\<rparr>)"
    if "topics q n = Some t" "unat (maxSize t) \<le> length (messages t)" for t
  proof -
    from that(1) have "q\<lparr>topics := (topics q)(n \<mapsto> t)\<rparr> = q" by (simp add: map_upd_triv)
    with that show ?thesis
      by (simp add: publish_unfold createTopic_unfold Topic_addMessage_def Message_new_def)
  qed
  have live: "\<exists>q' e' t'. publish n p h i ts (q, e) = Inr (i, q', e')
           \<and> topics q' n = Some t' \<and> (\<forall>n'. n' \<noteq> n \<longrightarrow> topics q' n' = topics q n')
           \<and> consumers q' = consumers q
           \<and> (case topics q n of
                None \<Rightarrow>
                  maxSize t' = default_maxSize \<and> messages t' = [?m]
                  \<and> messageCount t' = 1 \<and> calls e' = calls e
              | Some t \<Rightarrow>
                  if unat (maxSize t) \<le> length (messages t) then t' = t \<and> calls e' = calls e
                  else maxSize t' = maxSize t
                    \<and> messages t' = messages t @ [?m]
                    \<and> messageCount t' = messageCount t + 1
                    \<and> calls e' = calls e @ map (\<lambda>c. (c, ?m))
                                   (filter (\<lambda>x. active (heap e x)) (subscribers t)))"
    if nohang: "\<forall>t c. topics q n = Some t \<longrightarrow> c \<in> set (subscribers t) \<longrightarrow> active (heap e c)
          \<longrightarrow> handler (heap e c) ?m \<noteq> Hang"
  proof (cases "topics q n")
    case None
    then show ?thesis
      by (simp add: publish_unfold createTopic_unfold Topic_addMessage_def Topic_deliverMessage_def
          Topic_new_def default_maxSize_def)
  next
    case (Some t0)
    show ?thesis
    proof (cases "unat (maxSize t0) \<le> length (messages t0)")
      case True
      with Some full [of t0] show ?thesis by simp
    next
      case False
      then have room: "length (messages t0) < unat (maxSize t0)" by simp
      from nohang Some have "\<forall>c\<in>set (subscribers t0). active (heap e c) \<longrightarrow> handler (heap e c) ?m \<noteq> Hang"
        by simp
      from addMessage_accepted [OF room this] obtain t' e' where
        r: "Topic_addMessage ?m (t0, e) = Inr (t', e')"
        "buffer_of t' = (name t0, maxSize t0, messages t0 @ [?m], messageCount t0 + 1)"
        "calls e' = calls e @ map (\<lambda>c. (c, ?m)) (filter (\<lambda>x. active (heap e x)) (subscribers t0))"
        by blast
      with Some False show ?thesis
        by (simp add: publish_unfold createTopic_unfold buffer_of_def)
    qed
  qed
  from ret full live show ?thesis by blast
qed

lemma publish_result_example:
  "topics zero_q ''orders'' = Some (Topic_new ''orders'' 0)
   \<and> unat (maxSize (Topic_new ''orders'' 0)) \<le> length (messages (Topic_new ''orders'' 0))
   \<and> publish ''orders'' ''Order created'' Map.empty ''m1'' 0 (zero_q, fresh_env quiet)
       = Inr (''m1'', zero_q,
              (fresh_env quiet)\<lparr>cerr := [''Topic orders is full, dropping message: m1'']\<rparr>)
   \<and> topics (fst one_sub) ''orders''
       = Some \<lparr>name = ''orders'', maxSize = 1000, messages = [], subscribers = [1], messageCount = 0\<rparr>
   \<and> active (heap (snd one_sub) 1)
   \<and> handler (heap (snd one_sub) 1) (order_msg ''m1'') = Return
   \<and> (\<exists>q' e'. publish ''orders'' ''Order created'' Map.empty ''m1'' 0 one_sub = Inr (''m1'', q', e')
         \<and> calls e' = [(1, order_msg ''m1'')])"
proof -
  have z: "topics zero_q ''orders'' = Some (Topic_new ''orders'' 0)"
    by (simp add: zero_q_def createTopic_def MessageQueue_new_def)
  have f: "unat (maxSize (Topic_new ''orders'' 0)) \<le> length (messages (Topic_new ''orders'' 0))"
    by (simp add: Topic_new_def)
  have o: "one_sub = (fst one_sub, snd one_sub)" by simp
  have t: "topics (fst one_sub) ''orders''
      = Some \<lparr>name = ''orders'', maxSize = 1000, messages = [], subscribers = [1], messageCount = 0\<rparr>"
    by (simp add: one_sub_def subscribe_def createTopic_def MessageQueue_new_def Topic_new_def
        Topic_subscribe_def default_maxSize_def)
  have h: "handler (heap (snd one_sub) c) = (\<lambda>m. Return)" "active (heap (snd one_sub) c)" for c
    by (simp_all add: one_sub_def subscribe_def createTopic_def MessageQueue_new_def Topic_new_def
        Topic_subscribe_def fresh_env_def quiet_def Consumer_new_def Consumer_addSubscription_def)
  have c: "calls (snd one_sub) = []"
    by (simp add: one_sub_def subscribe_def createTopic_def MessageQueue_new_def Topic_new_def
        Topic_subscribe_def fresh_env_def Consumer_addSubscription_def)
  from publish_result [THEN conjunct2, THEN conjunct1, of zero_q "''orders''"
      "Topic_new ''orders'' 0" "''Order created''" Map.empty "''m1''" 0 "fresh_env quiet"] z f
  have drop: "publish ''orders'' ''Order created'' Map.empty ''m1'' 0 (zero_q, fresh_env quiet)
       = Inr (''m1'', zero_q,
              (fresh_env quiet)\<lparr>cerr := [''Topic orders is full, dropping message: m1'']\<rparr>)"
    by (simp add: Topic_new_def fresh_env_def)
  from publish_result [THEN conjunct2, THEN conjunct2, of "fst one_sub" "''orders''"
      "snd one_sub" "''m1''" 0 "''Order created''" Map.empty] t h c
  have acc: "\<exists>q' e'. publish ''orders'' ''Order created'' Map.empty ''m1'' 0 one_sub = Inr (''m1'', q', e')
         \<and> calls e' = [(1, order_msg ''m1'')]"
    by (auto simp: order_msg_def)
  from z f drop acc h t show ?thesis by simp
qed

text \<open>
  C2 fails on the code: not every call of \<^verbatim>\<open>publish\<close> returns the identifier. With
  consumer 1, whose handler never returns, subscribed to the topic, \<^verbatim>\<open>publish\<close>
  accepts the message (the topic holds it, and \<open>messageCount\<close> is 1) and then never
  returns, so the caller gets no identifier.
\<close>

theorem publish_accepts_and_never_returns:
  "isl (publish ''orders'' ''Order created'' Map.empty ''m1'' 0 hang_sub)
   \<and> map_option messages
        (topics (fst (projl (publish ''orders'' ''Order created'' Map.empty ''m1'' 0 hang_sub))) ''orders'')
       = Some [order_msg ''m1'']
   \<and> map_option messageCount
        (topics (fst (projl (publish ''orders'' ''Order created'' Map.empty ''m1'' 0 hang_sub))) ''orders'')
       = Some 1"
  by (simp add: hang_sub_def publish_def subscribe_def createTopic_def MessageQueue_new_def
      fresh_env_def slow_and_ok_def Topic_new_def Topic_subscribe_def Topic_addMessage_def
      Topic_deliverMessage_def default_maxSize_def Consumer_addSubscription_def
      Consumer_isActive_def dispatch_def Consumer_onMessage_def Consumer_new_def Let_def
      order_msg_def)

subsection \<open>A handler that throws\<close>

text \<open>
  C3 as stated (the error raised in the handler is caught at the consumer boundary) does
  not hold for every thrown object: when the handler of consumer 1 throws an object that
  is not derived from \<^verbatim>\<open>std::exception\<close>, the exception leaves \<^verbatim>\<open>Consumer::onMessage\<close>,
  whose \<^verbatim>\<open>catch\<close> clause is for \<^verbatim>\<open>const std::exception&\<close>, and the dispatch writes
  nothing to the log.
\<close>

theorem other_throw_leaves_onMessage:
  "handler (heap (snd alerts_odd) 1) fire = Throw OtherThrow
   \<and> Consumer_onMessage 1 fire (snd alerts_odd)
       = Inr (Some OtherThrow, (snd alerts_odd)\<lparr>calls := [(1, fire)]\<rparr>)
   \<and> cerr (final (dispatch 1 fire (snd alerts_odd))) = []"
  by (simp add: alerts_odd_def Topic_subscribe_def Topic_new_def fresh_env_def Consumer_new_def
      Consumer_addSubscription_def odd_and_ok_def Consumer_onMessage_def dispatch_def Let_def)

text \<open>
  C3, amended: a topic with room has two active subscribers \<open>a\<close> and \<open>b\<close>, in either
  order; the handler of \<open>a\<close> throws on the message, that of \<open>b\<close> returns. Then
  \<^verbatim>\<open>addMessage\<close> returns to the publisher, both handlers have been called with the
  message, once each and in the order of the list, the subscriber list and the consumers
  are as before, and the topic holds the message: nothing that \<open>a\<close> throws reaches the
  publisher, the topic or \<open>b\<close>. A \<^verbatim>\<open>std::exception\<close> is caught in
  \<^verbatim>\<open>Consumer::onMessage\<close>, which returns normally after writing one log line; any other
  thrown object leaves \<^verbatim>\<open>onMessage\<close> and ends with the dispatch, without a log line.
\<close>

theorem failing_handler_isolated:
  assumes subs: "subscribers t = [a, b] \<or> subscribers t = [b, a]"
    and act: "active (heap e a)" "active (heap e b)"
    and bad: "handler (heap e a) m = Throw x"
    and good: "handler (heap e b) m = Return"
    and room: "length (messages t) < unat (maxSize t)"
  shows "\<exists>t' e'. Topic_addMessage m (t, e) = Inr (t', e')
       \<and> calls e' = calls e @ map (\<lambda>c. (c, m)) (subscribers t)
       \<and> subscribers t' = subscribers t \<and> messages t' = messages t @ [m]
       \<and> heap e' = heap e
       \<and> (case x of
            StdException w \<Rightarrow>
              cerr e' = cerr e @ [''Error processing message '' @ msg_id m @ '': '' @ w]
              \<and> Consumer_onMessage a m e
                  = Inr (None, e\<lparr>calls := calls e @ [(a, m)],
                                  cerr := cerr e @ [''Error processing message '' @ msg_id m @ '': '' @ w]\<rparr>)
          | OtherThrow \<Rightarrow>
              cerr e' = cerr e
              \<and> Consumer_onMessage a m e = Inr (Some OtherThrow, e\<lparr>calls := calls e @ [(a, m)]\<rparr>))"
proof -
  from bad good have ne: "a \<noteq> b" by auto
  from subs show ?thesis
  proof
    assume "subscribers t = [a, b]"
    with act bad good room ne show ?thesis
      by (cases x) (simp_all add: Topic_addMessage_def Topic_deliverMessage_def
          Consumer_isActive_def dispatch_unfold Consumer_onMessage_def)
  next
    assume "subscribers t = [b, a]"
    with act bad good room ne show ?thesis
      by (cases x) (simp_all add: Topic_addMessage_def Topic_deliverMessage_def
          Consumer_isActive_def dispatch_unfold Consumer_onMessage_def)
  qed
qed

theorem failing_handler_isolated_witness:
  "subscribers (fst alerts) = [1, 2]
   \<and> active (heap (snd alerts) 1) \<and> active (heap (snd alerts) 2)
   \<and> handler (heap (snd alerts) 1) fire = Throw (StdException ''boom'')
   \<and> handler (heap (snd alerts) 2) fire = Return
   \<and> length (messages (fst alerts)) < unat (maxSize (fst alerts))
   \<and> (\<exists>t' e'. Topic_addMessage fire alerts = Inr (t', e')
         \<and> calls e' = [(1, fire), (2, fire)] \<and> subscribers t' = [1, 2] \<and> messages t' = [fire]
         \<and> cerr e' = [''Error processing message m1: boom''])"
proof -
  have s: "subscribers (fst alerts) = [1, 2]" "messages (fst alerts) = []"
    "maxSize (fst alerts) = 10"
    by (simp_all add: alerts_def Topic_subscribe_def Topic_new_def)
  have a: "active (heap (snd alerts) 1)" "active (heap (snd alerts) 2)"
    by (simp_all add: alerts_def Topic_subscribe_def Topic_new_def fresh_env_def Consumer_new_def
        Consumer_addSubscription_def)
  have h: "handler (heap (snd alerts) 1) fire = Throw (StdException ''boom'')"
    "handler (heap (snd alerts) 2) fire = Return"
    by (simp_all add: alerts_def Topic_subscribe_def Topic_new_def fresh_env_def Consumer_new_def
        Consumer_addSubscription_def bad_and_ok_def)
  have c: "calls (snd alerts) = []" "cerr (snd alerts) = []"
    by (simp_all add: alerts_def Topic_subscribe_def Topic_new_def fresh_env_def
        Consumer_addSubscription_def)
  have r: "length (messages (fst alerts)) < unat (maxSize (fst alerts))"
    using s by simp
  from failing_handler_isolated [of "fst alerts" 1 2 "snd alerts" fire "StdException ''boom''"]
    s a h r c
  have "\<exists>t' e'. Topic_addMessage fire alerts = Inr (t', e')
         \<and> calls e' = [(1, fire), (2, fire)] \<and> subscribers t' = [1, 2] \<and> messages t' = [fire]
         \<and> cerr e' = [''Error processing message m1: boom'']"
    by (auto simp: fire_def Message_new_def)
  with s a h r show ?thesis by simp
qed

subsection \<open>Stopping a consumer\<close>

text \<open>
  What holds of a stopped consumer. \<^verbatim>\<open>stop\<close> sets the flag \<open>active\<close> to false. From a
  state where the flag of consumer \<open>c\<close> is false, whatever sequence of calls follows on
  the broker and on the consumers (\<^verbatim>\<open>createTopic\<close>, \<^verbatim>\<open>deleteTopic\<close>, \<^verbatim>\<open>publish\<close>,
  \<^verbatim>\<open>subscribe\<close>, \<^verbatim>\<open>unsubscribe\<close>, \<^verbatim>\<open>stop\<close>), the flag is still false at the end and the
  handler of \<open>c\<close> has not been called again. And a \<^verbatim>\<open>publish\<close> that returns from a
  delivery on a topic (the topic had room) leaves as subscribers exactly those that were
  active: \<open>c\<close> is no longer in the list.
\<close>

lemma stopped_consumer:
  "\<not> active (heap (Consumer_stop c e) c)
   \<and> (\<not> active (heap e c) \<longrightarrow>
        \<not> active (heap (snd (final (run ops (q, e)))) c)
        \<and> calls_to c (snd (final (run ops (q, e)))) = calls_to c e)
   \<and> (\<not> active (heap e c) \<and> topics q n = Some t \<and> length (messages t) < unat (maxSize t)
        \<and> publish n p h i ts (q, e) = Inr (r, q', e') \<longrightarrow>
        (\<exists>t'. topics q' n = Some t'
           \<and> subscribers t' = filter (\<lambda>x. active (heap e x)) (subscribers t)
           \<and> c \<notin> set (subscribers t')))"
proof -
  have a: "\<not> active (heap (Consumer_stop c e) c)" by (simp add: Consumer_stop_def)
  have b: "\<not> active (heap (snd (final (run ops (q, e)))) c)
        \<and> calls_to c (snd (final (run ops (q, e)))) = calls_to c e"
    if "\<not> active (heap e c)"
    using run_stays_stopped [of "(q, e)" c ops] that by (simp add: stays_stopped_def)
  have d: "\<exists>t'. topics q' n = Some t'
           \<and> subscribers t' = filter (\<lambda>x. active (heap e x)) (subscribers t)
           \<and> c \<notin> set (subscribers t')"
    if st: "\<not> active (heap e c)" and reg: "topics q n = Some t"
      and room: "length (messages t) < unat (maxSize t)"
      and ret: "publish n p h i ts (q, e) = Inr (r, q', e')"
  proof -
    let ?m = "Message_new i ts n p h"
    let ?t1 = "t\<lparr>messages := messages t @ [?m], messageCount := messageCount t + 1\<rparr>"
    from ret reg obtain te' where te': "Topic_addMessage ?m (t, e) = Inr te'"
      and q': "q' = q\<lparr>topics := (topics q)(n \<mapsto> fst te')\<rparr>"
      by (auto simp: publish_unfold createTopic_unfold split: sum.splits)
    from te' room have "deliver_loop ?m (subscribers t) (?t1, e) = Inr te'"
      by (simp add: Topic_addMessage_def Topic_deliverMessage_def)
    from deliver_loop_result [OF this, of "[]"]
    have "subscribers (fst te') = filter (\<lambda>x. active (heap e x)) (subscribers t)" by simp
    with q' st show ?thesis by simp
  qed
  from a b d show ?thesis by blast
qed

lemma stopped_consumer_example:
  "\<not> active (heap (snd one_stopped) 1)
   \<and> topics (fst one_stopped) ''orders''
       = Some \<lparr>name = ''orders'', maxSize = 1000, messages = [], subscribers = [1], messageCount = 0\<rparr>
   \<and> calls_to 1 (snd (final (run [Publish ''orders'' ''Order created'' Map.empty ''m1'' 0,
                                       Subscribe 1 ''alerts'',
                                       Publish ''alerts'' ''fire'' Map.empty ''m2'' 1] one_stopped))) = []
   \<and> (\<exists>q' e'. publish ''orders'' ''Order created'' Map.empty ''m1'' 0 one_stopped
                  = Inr (''m1'', q', e')
         \<and> (\<exists>t'. topics q' ''orders'' = Some t' \<and> subscribers t' = []))"
proof -
  have o: "one_stopped = (fst one_stopped, snd one_stopped)" by simp
  have st: "\<not> active (heap (snd one_stopped) 1)"
    by (simp add: one_stopped_def Consumer_stop_def)
  have t: "topics (fst one_stopped) ''orders''
      = Some \<lparr>name = ''orders'', maxSize = 1000, messages = [], subscribers = [1], messageCount = 0\<rparr>"
    by (simp add: one_stopped_def one_sub_def subscribe_def createTopic_def MessageQueue_new_def
        Topic_new_def Topic_subscribe_def default_maxSize_def)
  have c: "calls_to 1 (snd one_stopped) = []"
    by (simp add: one_stopped_def one_sub_def subscribe_def createTopic_def MessageQueue_new_def
        Topic_new_def Topic_subscribe_def fresh_env_def Consumer_addSubscription_def
        Consumer_stop_def calls_to_def)
  have ret: "\<exists>q' e'. publish ''orders'' ''Order created'' Map.empty ''m1'' 0
                (fst one_stopped, snd one_stopped) = Inr (''m1'', q', e')"
    using t st
    by (simp add: publish_unfold createTopic_unfold Topic_addMessage_def Topic_deliverMessage_def
        Consumer_isActive_def)
  then obtain q' e' where r: "publish ''orders'' ''Order created'' Map.empty ''m1'' 0
                (fst one_stopped, snd one_stopped) = Inr (''m1'', q', e')" by blast
  from stopped_consumer [where e = "snd one_stopped" and c = 1
      and q = "fst one_stopped" and n = "''orders''" and p = "''Order created''" and h = Map.empty
      and i = "''m1''" and ts = 0 and r = "''m1''" and q' = q' and e' = e'
      and t = "\<lparr>name = ''orders'', maxSize = 1000, messages = [], subscribers = [1],
                messageCount = 0\<rparr>", THEN conjunct2, THEN conjunct2] st t r
  have pruned: "\<exists>t'. topics q' ''orders'' = Some t' \<and> subscribers t' = []" by auto
  from stopped_consumer [where e = "snd one_stopped" and c = 1
      and q = "fst one_stopped"
      and ops = "[Publish ''orders'' ''Order created'' Map.empty ''m1'' 0, Subscribe 1 ''alerts'',
        Publish ''alerts'' ''fire'' Map.empty ''m2'' 1]", THEN conjunct2, THEN conjunct1] st c
  have quiet: "calls_to 1 (snd (final (run [Publish ''orders'' ''Order created'' Map.empty ''m1'' 0,
                                       Subscribe 1 ''alerts'',
                                       Publish ''alerts'' ''fire'' Map.empty ''m2'' 1] one_stopped))) = []"
    by simp
  from st t quiet r pruned o show ?thesis by auto
qed

text \<open>
  C6 fails on the code in its last part: a stopped consumer is not always removed by the
  next delivery attempt. Consumer 1, whose handler never returns, and consumer 2
  subscribe to a topic in that order, and consumer 2 is stopped. The next \<^verbatim>\<open>publish\<close> on
  the topic never returns: the loop of \<^verbatim>\<open>deliverMessage\<close> waits for the handler of
  consumer 1 and does not reach consumer 2, which stays in the subscriber list.
\<close>

theorem stopped_consumer_not_pruned_when_stuck:
  "\<not> active (heap (snd stopped_behind_slow) 2)
   \<and> map_option subscribers (topics (fst stopped_behind_slow) ''x'') = Some [1, 2]
   \<and> isl (publish ''x'' ''fire'' Map.empty ''m1'' 0 stopped_behind_slow)
   \<and> map_option subscribers
        (topics (fst (projl (publish ''x'' ''fire'' Map.empty ''m1'' 0 stopped_behind_slow))) ''x'')
       = Some [1, 2]
   \<and> 2 \<in> set (consumers (fst (projl (publish ''x'' ''fire'' Map.empty ''m1'' 0 stopped_behind_slow))))"
  by (simp add: stopped_behind_slow_def publish_def subscribe_def createTopic_def MessageQueue_new_def
      fresh_env_def slow_and_ok_def Topic_new_def Topic_subscribe_def Topic_addMessage_def
      Topic_deliverMessage_def default_maxSize_def Consumer_addSubscription_def Consumer_stop_def
      Consumer_isActive_def dispatch_def Consumer_onMessage_def Consumer_new_def Let_def)

subsection \<open>Subscribing twice\<close>

text \<open>
  C4: in every state \<open>w\<close> that the broker reaches from the empty one,
  \<^verbatim>\<open>subscribe(c, n)\<close> called a second time changes nothing; after the call, \<open>c\<close> occurs
  exactly once in the subscriber list of the topic \<open>n\<close>, and \<open>n\<close> is in the
  subscription set of \<open>c\<close>. When \<open>c\<close> is a subscriber already, the call changes
  nothing; when it is not, \<open>c\<close> is appended to the subscriber list (of the existing
  topic, or of the one created with the default capacity) and \<open>n\<close> is added to the
  subscription set of \<open>c\<close>. \<^verbatim>\<open>Topic::subscribe\<close> itself, called twice on any topic, does
  what one call does.
\<close>

theorem subscribe_idempotent:
  assumes "final (run ops (MessageQueue_new, fresh_env mk)) = w"
  shows "subscribe c n (subscribe c n w) = subscribe c n w
     \<and> (\<exists>t1. topics (fst (subscribe c n w)) n = Some t1 \<and> count_list (subscribers t1) c = 1)
     \<and> n \<in> subscribedTopics (heap (snd (subscribe c n w)) c)
     \<and> (\<forall>t. topics (fst w) n = Some t \<and> c \<in> set (subscribers t) \<longrightarrow> subscribe c n w = w)
     \<and> (\<forall>t. topics (fst w) n = Some t \<and> c \<notin> set (subscribers t) \<longrightarrow>
           topics (fst (subscribe c n w)) n = Some (t\<lparr>subscribers := subscribers t @ [c]\<rparr>)
           \<and> subscribedTopics (heap (snd (subscribe c n w)) c)
               = insert n (subscribedTopics (heap (snd w) c)))
     \<and> (topics (fst w) n = None \<longrightarrow>
           topics (fst (subscribe c n w)) n
             = Some ((Topic_new n default_maxSize)\<lparr>subscribers := [c]\<rparr>)
           \<and> subscribedTopics (heap (snd (subscribe c n w)) c)
               = insert n (subscribedTopics (heap (snd w) c)))
     \<and> Topic_subscribe c (Topic_subscribe c te) = Topic_subscribe c te"
proof -
  let ?w1 = "subscribe c n w"
  let ?te1 = "Topic_subscribe c (fst (createTopic n default_maxSize (fst w)), snd w)"
  have inv: "broker_inv w"
    using broker_inv_run [OF broker_inv_init, of ops mk] assms by simp
  then have inv1: "broker_inv ?w1" by (rule broker_inv_subscribe)
  have reg1: "topics (fst ?w1) n = Some (fst ?te1)" by (rule subscribe_result)
  have in1: "c \<in> set (subscribers (fst ?te1))" by (simp add: Topic_subscribe_fst)
  have twice: "subscribe c n ?w1 = ?w1"
    using reg1 in1 subscribe_result(3) by (rule subscribe_again)
  from broker_inv_Some [OF inv1 reg1]
  have l1: "name (fst ?te1) = n" "linked (fst ?te1) (snd ?w1)" by simp_all
  from l1 in1 have once: "count_list (subscribers (fst ?te1)) c = 1"
    by (simp add: linked_def count_list_distinct)
  from l1 in1 have mem: "n \<in> subscribedTopics (heap (snd ?w1) c)"
    by (simp add: linked_def)
  have already: "subscribe c n w = w" if "topics (fst w) n = Some t" "c \<in> set (subscribers t)" for t
  proof -
    from broker_inv_Some(3) [OF inv that(1)] that(2) have "c \<in> set (consumers (fst w))" by auto
    with that show ?thesis by (rule subscribe_again)
  qed
  have new: "topics (fst ?w1) n = Some (t\<lparr>subscribers := subscribers t @ [c]\<rparr>)
           \<and> subscribedTopics (heap (snd ?w1) c) = insert n (subscribedTopics (heap (snd w) c))"
    if "topics (fst w) n = Some t" "c \<notin> set (subscribers t)" for t
  proof -
    from broker_inv_Some(1) [OF inv that(1)] have "name t = n" .
    with that show ?thesis
      by (simp add: subscribe_result createTopic_unfold Topic_subscribe_fst Topic_subscribe_snd
          Consumer_addSubscription_def)
  qed
  have fresh: "topics (fst ?w1) n = Some ((Topic_new n default_maxSize)\<lparr>subscribers := [c]\<rparr>)
           \<and> subscribedTopics (heap (snd ?w1) c) = insert n (subscribedTopics (heap (snd w) c))"
    if "topics (fst w) n = None"
    using that
    by (simp add: subscribe_result createTopic_unfold Topic_subscribe_fst Topic_subscribe_snd
        Consumer_addSubscription_def Topic_new_def)
  have topic_level: "Topic_subscribe c (Topic_subscribe c te) = Topic_subscribe c te"
    by (simp add: prod_eq_iff Topic_subscribe_fst Topic_subscribe_snd)
  from twice reg1 once mem already new fresh topic_level show ?thesis by blast
qed

theorem subscribe_idempotent_witness:
  "topics (fst created) ''orders'' = Some (Topic_new ''orders'' 2)
   \<and> 1 \<notin> set (subscribers (Topic_new ''orders'' 2))
   \<and> topics (fst (subscribe 1 ''orders'' created)) ''orders''
       = Some ((Topic_new ''orders'' 2)\<lparr>subscribers := [1]\<rparr>)
   \<and> ''orders'' \<in> subscribedTopics (heap (snd (subscribe 1 ''orders'' created)) 1)
   \<and> subscribe 1 ''orders'' (subscribe 1 ''orders'' created) = subscribe 1 ''orders'' created
   \<and> topics (fst subscribed) ''orders'' = Some ((Topic_new ''orders'' 2)\<lparr>subscribers := [1]\<rparr>)
   \<and> 1 \<in> set (subscribers ((Topic_new ''orders'' 2)\<lparr>subscribers := [1]\<rparr>))
   \<and> subscribe 1 ''orders'' subscribed = subscribed"
proof -
  have t0: "topics (fst created) ''orders'' = Some (Topic_new ''orders'' 2)"
    by (simp add: created_def createTopic_def MessageQueue_new_def)
  have n0: "1 \<notin> set (subscribers (Topic_new ''orders'' 2))" by (simp add: Topic_new_def)
  have t1: "topics (fst subscribed) ''orders'' = Some ((Topic_new ''orders'' 2)\<lparr>subscribers := [1]\<rparr>)"
    by (simp add: subscribed_def subscribe_def createTopic_def MessageQueue_new_def
        Topic_subscribe_def Topic_new_def)
  have n1: "1 \<in> set (subscribers ((Topic_new ''orders'' 2)\<lparr>subscribers := [1]\<rparr>))" by simp
  have r0: "final (run [CreateTopic ''orders'' 2] (MessageQueue_new, fresh_env quiet)) = created"
    by (simp only: created_def)
  have r1: "final (run [CreateTopic ''orders'' 2, Subscribe 1 ''orders'']
                     (MessageQueue_new, fresh_env quiet)) = subscribed"
    by (simp only: subscribed_def)
  from subscribe_idempotent [OF r0, where c = 1 and n = "''orders''"] t0 n0
  have a: "topics (fst (subscribe 1 ''orders'' created)) ''orders''
       = Some ((Topic_new ''orders'' 2)\<lparr>subscribers := [1]\<rparr>)
   \<and> ''orders'' \<in> subscribedTopics (heap (snd (subscribe 1 ''orders'' created)) 1)
   \<and> subscribe 1 ''orders'' (subscribe 1 ''orders'' created) = subscribe 1 ''orders'' created"
    by (simp add: Topic_new_def)
  from subscribe_idempotent [OF r1, where c = 1 and n = "''orders''"] t1 n1
  have b: "subscribe 1 ''orders'' subscribed = subscribed"
    by simp
  from t0 n0 t1 n1 a b show ?thesis by simp
qed

subsection \<open>Deleting a topic\<close>

text \<open>
  C5: in every state that the broker reaches from the empty one, \<^verbatim>\<open>deleteTopic\<close> of a
  registered name returns true; afterwards the name is not registered, so
  \<^verbatim>\<open>getTopicStats\<close> gives nothing for it, and it is in the subscription set of no
  consumer at all, in the consumer registry or not; the other topics, the consumer
  registry and all other subscriptions are as before. For a name that is not registered,
  \<^verbatim>\<open>deleteTopic\<close> returns false and changes nothing.
\<close>

theorem deleteTopic_cleans_up:
  assumes "final (run ops (MessageQueue_new, fresh_env mk)) = (q, e)"
  shows "(topics q n = Some t \<longrightarrow>
           (\<exists>q' e'. deleteTopic n (q, e) = (True, q', e')
              \<and> topics q' n = None \<and> (\<forall>n'. n' \<noteq> n \<longrightarrow> topics q' n' = topics q n')
              \<and> consumers q' = consumers q
              \<and> (\<forall>c. n \<notin> subscribedTopics (heap e' c))
              \<and> (\<forall>c n'. n' \<noteq> n \<longrightarrow>
                    (n' \<in> subscribedTopics (heap e' c)) = (n' \<in> subscribedTopics (heap e c)))
              \<and> getTopicStats n q' = None))
       \<and> (topics q n = None \<longrightarrow> deleteTopic n (q, e) = (False, q, e))"
proof -
  have inv: "broker_inv (q, e)"
    using broker_inv_run [OF broker_inv_init, of ops mk] assms by simp
  have known: "\<exists>q' e'. deleteTopic n (q, e) = (True, q', e')
              \<and> topics q' n = None \<and> (\<forall>n'. n' \<noteq> n \<longrightarrow> topics q' n' = topics q n')
              \<and> consumers q' = consumers q
              \<and> (\<forall>c. n \<notin> subscribedTopics (heap e' c))
              \<and> (\<forall>c n'. n' \<noteq> n \<longrightarrow>
                    (n' \<in> subscribedTopics (heap e' c)) = (n' \<in> subscribedTopics (heap e c)))
              \<and> getTopicStats n q' = None"
    if reg: "topics q n = Some t"
  proof -
    let ?e' = "snd (unsubscribe_all (consumers q) (t, e))"
    from deleteTopic_cleans [OF inv reg]
    have gone: "\<forall>c. n \<notin> subscribedTopics (heap ?e' c)" and ok: "others_kept n e ?e'" .
    from reg have "deleteTopic n (q, e) = (True, q\<lparr>topics := (topics q)(n := None)\<rparr>, ?e')"
      by (simp add: deleteTopic_unfold)
    with gone ok show ?thesis by (simp add: others_kept_def getTopicStats_def)
  qed
  have unknown: "deleteTopic n (q, e) = (False, q, e)" if "topics q n = None"
    using that by (simp add: deleteTopic_unfold)
  from known unknown show ?thesis by blast
qed

theorem deleteTopic_cleans_up_witness:
  "topics (fst two_topics) ''orders''
     = Some ((Topic_new ''orders'' default_maxSize)\<lparr>subscribers := [1, 2]\<rparr>)
   \<and> ''orders'' \<in> subscribedTopics (heap (snd two_topics) 1)
   \<and> ''orders'' \<in> subscribedTopics (heap (snd two_topics) 2)
   \<and> fst (deleteTopic ''orders'' two_topics)
   \<and> ''orders'' \<notin> subscribedTopics (heap (snd (snd (deleteTopic ''orders'' two_topics))) 1)
   \<and> ''orders'' \<notin> subscribedTopics (heap (snd (snd (deleteTopic ''orders'' two_topics))) 2)
   \<and> ''alerts'' \<in> subscribedTopics (heap (snd (snd (deleteTopic ''orders'' two_topics))) 1)
   \<and> getTopicStats ''orders'' (fst (snd (deleteTopic ''orders'' two_topics))) = None
   \<and> topics (fst two_topics) ''billing'' = None
   \<and> deleteTopic ''billing'' two_topics = (False, two_topics)"
proof -
  have r: "final (run [Subscribe 1 ''orders'', Subscribe 2 ''orders'', Subscribe 1 ''alerts'']
             (MessageQueue_new, fresh_env quiet)) = (fst two_topics, snd two_topics)"
    by (simp add: two_topics_def)
  have t: "topics (fst two_topics) ''orders''
     = Some ((Topic_new ''orders'' default_maxSize)\<lparr>subscribers := [1, 2]\<rparr>)"
    "topics (fst two_topics) ''billing'' = None"
    by (simp_all add: two_topics_def subscribe_def createTopic_def MessageQueue_new_def
        Topic_subscribe_def Topic_new_def)
  have s: "''orders'' \<in> subscribedTopics (heap (snd two_topics) 1)"
    "''orders'' \<in> subscribedTopics (heap (snd two_topics) 2)"
    "''alerts'' \<in> subscribedTopics (heap (snd two_topics) 1)"
    by (simp_all add: two_topics_def subscribe_def createTopic_def MessageQueue_new_def
        Topic_subscribe_def Topic_new_def Consumer_addSubscription_def fresh_env_def)
  from deleteTopic_cleans_up [OF r, where n = "''orders''"
      and t = "(Topic_new ''orders'' default_maxSize)\<lparr>subscribers := [1, 2]\<rparr>"] t s
  have a: "fst (deleteTopic ''orders'' two_topics)
   \<and> ''orders'' \<notin> subscribedTopics (heap (snd (snd (deleteTopic ''orders'' two_topics))) 1)
   \<and> ''orders'' \<notin> subscribedTopics (heap (snd (snd (deleteTopic ''orders'' two_topics))) 2)
   \<and> ''alerts'' \<in> subscribedTopics (heap (snd (snd (deleteTopic ''orders'' two_topics))) 1)
   \<and> getTopicStats ''orders'' (fst (snd (deleteTopic ''orders'' two_topics))) = None"
    by auto
  from deleteTopic_cleans_up [OF r, where n = "''billing''"] t
  have b: "deleteTopic ''billing'' two_topics = (False, two_topics)"
    by simp
  from t s a b show ?thesis by simp
qed

end
